theory Spec2Isabelle
  imports Complex_Main "HOL-Library.Word"
begin

unbundle bit_operations_syntax

section \<open>Values shared by the byte sources and the decoder\<close>

text \<open>
  A \<open>Uint8Array\<close> element is a byte, a \<open>Uint32Array\<close> element a 32-bit value.
  Reading an array outside its range gives JavaScript's \<open>undefined\<close>, written \<open>None\<close>.
\<close>

type_synonym byte = "8 word"
type_synonym pixel = "32 word"

datatype error =
    TypeError
  | IndexSizeError
  | HttpError nat
  | FetchRejected
  | TransportFailure

definition data_at :: "byte list \<Rightarrow> nat \<Rightarrow> byte option" where
  "data_at data pos = (if pos < length data then Some (data ! pos) else None)"

section \<open>ArrayBinaryReader\<close>

record array_reader =
  ar_array :: "byte list"
  ar_length :: nat
  ar_position :: nat

definition new_ArrayBinaryReader :: "byte list \<Rightarrow> array_reader" where
  "new_ArrayBinaryReader array =
     \<lparr>ar_array = array, ar_length = length array, ar_position = 0\<rparr>"

text \<open>\<open>readByte\<close>: \<open>return this.array[this.$position++]\<close>; past the end it yields
  \<open>undefined\<close> and still advances the position.\<close>

definition ar_readByte :: "array_reader \<Rightarrow> byte option \<times> array_reader" where
  "ar_readByte r =
     (data_at (ar_array r) (ar_position r), r\<lparr>ar_position := ar_position r + 1\<rparr>)"

section \<open>CombinedBinaryReader\<close>

text \<open>
  The sub-readers are objects shared between the \<open>subReaders\<close> array and the cached
  \<open>currentSubReader\<close> field. The list \<open>subReaders\<close> is the store of these objects and
  \<open>currentSubReader\<close> is a reference into it (\<open>None\<close> is \<open>null\<close>), so that a read through
  the cached reference is seen through the array as well.
\<close>

record combined_reader =
  subReaders :: "array_reader list"
  c_length :: nat
  c_position :: nat
  subReaderIndex :: nat
  currentSubReader :: "nat option"

definition new_CombinedBinaryReader :: "byte list list \<Rightarrow> combined_reader" where
  "new_CombinedBinaryReader chunks =
     (let subs = map new_ArrayBinaryReader chunks in
      \<lparr>subReaders = subs,
       c_length = sum_list (map ar_length subs),
       c_position = 0,
       subReaderIndex = 0,
       currentSubReader = (if length subs > 0 then Some 0 else None)\<rparr>)"

text \<open>The loop at the head of \<open>readByte\<close> and \<open>readBytes\<close>:
  \<open>while (cur && cur.position >= cur.length) { subReaderIndex++; cur = subReaders[subReaderIndex] || null }\<close>.\<close>

function advance :: "combined_reader \<Rightarrow> combined_reader" where
  "advance c =
     (case currentSubReader c of
        None \<Rightarrow> c
      | Some k \<Rightarrow>
          if ar_position (subReaders c ! k) \<ge> ar_length (subReaders c ! k)
          then advance (c\<lparr>subReaderIndex := subReaderIndex c + 1,
                          currentSubReader :=
                            (if subReaderIndex c + 1 < length (subReaders c)
                             then Some (subReaderIndex c + 1) else None)\<rparr>)
          else c)"
  by pat_completeness auto
termination
  by (relation "measure (\<lambda>c. case currentSubReader c of None \<Rightarrow> 0
                 | Some k \<Rightarrow> Suc (length (subReaders c) - subReaderIndex c))")
     (auto split: option.splits)

text \<open>\<open>readByte\<close>: after the loop, \<open>this.$position++\<close>, then
  \<open>this.currentSubReader!.readByte()\<close>, which throws a TypeError on \<open>null\<close>.\<close>

definition c_readByte :: "combined_reader \<Rightarrow> error + (byte option \<times> combined_reader)" where
  "c_readByte c =
     (let c1 = advance c;
          c2 = c1\<lparr>c_position := c_position c1 + 1\<rparr>
      in case currentSubReader c2 of
           None \<Rightarrow> Inl TypeError
         | Some k \<Rightarrow>
             (let (b, r') = ar_readByte (subReaders c2 ! k)
              in Inr (b, c2\<lparr>subReaders := (subReaders c2)[k := r']\<rparr>)))"

declare advance.simps [simp del]

section \<open>The BinaryReader interface\<close>

datatype reader = ArrayReader array_reader | CombinedReader combined_reader

fun reader_position :: "reader \<Rightarrow> nat" where
  "reader_position (ArrayReader r) = ar_position r"
| "reader_position (CombinedReader c) = c_position c"

fun reader_length :: "reader \<Rightarrow> nat" where
  "reader_length (ArrayReader r) = ar_length r"
| "reader_length (CombinedReader c) = c_length c"

fun reader_readByte :: "reader \<Rightarrow> error + (byte option \<times> reader)" where
  "reader_readByte (ArrayReader r) =
     (let (b, r') = ar_readByte r in Inr (b, ArrayReader r'))"
| "reader_readByte (CombinedReader c) =
     (case c_readByte c of Inl e \<Rightarrow> Inl e | Inr (b, c') \<Rightarrow> Inr (b, CombinedReader c'))"

section \<open>RunLengthEncoding\<close>

text \<open>
  The palette (\<open>source\<close>) and the image buffer (\<open>target\<close>) are the \<open>Uint32Array\<close>s that
  the subtitle compiler passes. \<open>source[b]\<close> outside the palette is \<open>undefined\<close>; a store
  \<open>target[i] = v\<close> outside the buffer is ignored, and \<open>undefined\<close> is stored as 0.
\<close>

definition source_at :: "pixel list \<Rightarrow> byte option \<Rightarrow> pixel option" where
  "source_at source b =
     (case b of
        None \<Rightarrow> None
      | Some x \<Rightarrow> if unat x < length source then Some (source ! unat x) else None)"

definition to_u32 :: "pixel option \<Rightarrow> pixel" where
  "to_u32 v = (case v of None \<Rightarrow> 0 | Some p \<Rightarrow> p)"

definition store :: "pixel list \<Rightarrow> nat \<Rightarrow> pixel option \<Rightarrow> pixel list" where
  "store target i v = (if i < length target then target[i := to_u32 v] else target)"

text \<open>A byte used as an operand of \<open>&\<close> and \<open>|\<close>: \<open>undefined\<close> counts as 0.\<close>

definition to_int32 :: "byte option \<Rightarrow> nat" where
  "to_int32 b = (case b of None \<Rightarrow> 0 | Some x \<Rightarrow> unat x)"

text \<open>The unrolled fill: \<open>while (idx + 4 <= end) {...; idx += 4}\<close> and then
  \<open>while (idx < end) target[idx++] = value\<close>.\<close>

function fill4 :: "pixel list \<Rightarrow> pixel option \<Rightarrow> nat \<Rightarrow> nat \<Rightarrow> pixel list \<times> nat" where
  "fill4 target v idx end =
     (if idx + 4 \<le> end
      then fill4 (store (store (store (store target idx v) (idx + 1) v) (idx + 2) v) (idx + 3) v)
                 v (idx + 4) end
      else (target, idx))"
  by pat_completeness auto
termination
  by (relation "measure (\<lambda>(target, v, idx, end). end - idx)") auto

function fill1 :: "pixel list \<Rightarrow> pixel option \<Rightarrow> nat \<Rightarrow> nat \<Rightarrow> pixel list \<times> nat" where
  "fill1 target v idx end =
     (if idx < end then fill1 (store target idx v) v (idx + 1) end else (target, idx))"
  by pat_completeness auto
termination
  by (relation "measure (\<lambda>(target, v, idx, end). end - idx)") auto

declare fill4.simps [simp del] fill1.simps [simp del]

definition fill_unrolled :: "pixel list \<Rightarrow> pixel option \<Rightarrow> nat \<Rightarrow> nat \<Rightarrow> pixel list \<times> nat" where
  "fill_unrolled target v idx num =
     (let end = idx + num;
          (t1, i1) = fill4 target v idx end
      in fill1 t1 v i1 end)"

text \<open>\<open>Uint32Array.prototype.fill(value, start, end)\<close>: both bounds are clamped to the
  length of the array.\<close>

definition u32_fill :: "pixel list \<Rightarrow> pixel option \<Rightarrow> nat \<Rightarrow> nat \<Rightarrow> pixel list" where
  "u32_fill target v start end =
     (let len = length target; k = min start len; final = min end len
      in take k target @ replicate (final - k) (to_u32 v) @ drop (max k final) target)"

text \<open>The bytes of a run after \<open>byte1 = 0\<close>, \<open>byte2 \<noteq> 0\<close>: the flags and the short length.\<close>

definition bit8 :: "byte option \<Rightarrow> nat" where
  "bit8 byte2 = to_int32 byte2 AND 0x80"

definition bit7 :: "byte option \<Rightarrow> nat" where
  "bit7 byte2 = to_int32 byte2 AND 0x40"

definition num6 :: "byte option \<Rightarrow> nat" where
  "num6 byte2 = to_int32 byte2 AND 0x3F"

definition num14 :: "nat \<Rightarrow> byte option \<Rightarrow> nat" where
  "num14 num byte3 = push_bit 8 num OR to_int32 byte3"

subsection \<open>\<open>decode\<close> through a BinaryReader\<close>

text \<open>\<open>if (bit7) num = (num << 8) | reader.readByte()\<close> and
  \<open>const value = bit8 ? source[reader.readByte()] : source[0]\<close>. A \<open>readByte\<close> that
  throws ends the decoding with that error.\<close>

definition read_run_length :: "reader \<Rightarrow> byte option \<Rightarrow> error + (nat \<times> reader)" where
  "read_run_length r2 byte2 =
     (if bit7 byte2 \<noteq> 0
      then (case reader_readByte r2 of
              Inl e \<Rightarrow> Inl e
            | Inr (byte3, r3) \<Rightarrow> Inr (num14 (num6 byte2) byte3, r3))
      else Inr (num6 byte2, r2))"

definition read_run_value ::
  "pixel list \<Rightarrow> reader \<Rightarrow> byte option \<Rightarrow> error + (pixel option \<times> reader)" where
  "read_run_value source r3 byte2 =
     (if bit8 byte2 \<noteq> 0
      then (case reader_readByte r3 of
              Inl e \<Rightarrow> Inl e
            | Inr (c, r4) \<Rightarrow> Inr (source_at source c, r4))
      else Inr (source_at source (Some 0), r3))"

definition decode_run ::
  "pixel list \<Rightarrow> reader \<Rightarrow> byte option \<Rightarrow> pixel list \<Rightarrow> nat
     \<Rightarrow> error + (reader \<times> pixel list \<times> nat)" where
  "decode_run source r2 byte2 target idx =
     (case read_run_length r2 byte2 of
        Inl e \<Rightarrow> Inl e
      | Inr (num, r3) \<Rightarrow>
          (case read_run_value source r3 byte2 of
             Inl e \<Rightarrow> Inl e
           | Inr (v, r4) \<Rightarrow>
               (case fill_unrolled target v idx num of
                  (target', idx') \<Rightarrow> Inr (r4, target', idx'))))"

text \<open>One pass through the body of \<open>while (reader.position < len)\<close>.\<close>

fun decode_body ::
  "pixel list \<Rightarrow> reader \<times> pixel list \<times> nat \<Rightarrow> error + (reader \<times> pixel list \<times> nat)" where
  "decode_body source (reader, target, idx) =
     (case reader_readByte reader of
        Inl e \<Rightarrow> Inl e
      | Inr (byte1, r1) \<Rightarrow>
          (if byte1 \<noteq> Some 0
           then Inr (r1, store target idx (source_at source byte1), idx + 1)
           else
            (case reader_readByte r1 of
               Inl e \<Rightarrow> Inl e
             | Inr (byte2, r2) \<Rightarrow>
                 (if byte2 = Some 0 then Inr (r2, target, idx)
                  else decode_run source r2 byte2 target idx))))"

lemma advance_fields:
  "c_position (advance c) = c_position c \<and> c_length (advance c) = c_length c
   \<and> subReaders (advance c) = subReaders c"
proof (induction c rule: advance.induct)
  case (1 c)
  show ?case
  proof (cases "currentSubReader c")
    case None
    then show ?thesis by (subst (1 2 3) advance.simps) simp
  next
    case (Some k)
    show ?thesis
    proof (cases "ar_position (subReaders c ! k) \<ge> ar_length (subReaders c ! k)")
      case True
      with Some "1.IH" show ?thesis by (subst (1 2 3) advance.simps) simp
    next
      case False
      with Some show ?thesis by (subst (1 2 3) advance.simps) simp
    qed
  qed
qed

lemma reader_readByte_position:
  assumes "reader_readByte r = Inr (b, r')"
  shows "reader_position r' = reader_position r + 1 \<and> reader_length r' = reader_length r"
proof (cases r)
  case (ArrayReader a)
  with assms show ?thesis by (auto simp: ar_readByte_def)
next
  case (CombinedReader c)
  with assms show ?thesis
    by (auto simp: c_readByte_def Let_def advance_fields ar_readByte_def
             split: option.splits sum.splits)
qed

lemma read_run_length_position:
  assumes "read_run_length r byte2 = Inr (num, r')"
  shows "reader_position r \<le> reader_position r' \<and> reader_length r' = reader_length r"
  using assms
  by (auto simp: read_run_length_def split: if_splits sum.splits
           dest: reader_readByte_position)

lemma read_run_value_position:
  assumes "read_run_value source r byte2 = Inr (v, r')"
  shows "reader_position r \<le> reader_position r' \<and> reader_length r' = reader_length r"
  using assms
  by (auto simp: read_run_value_def split: if_splits sum.splits
           dest: reader_readByte_position)

lemma decode_run_position:
  assumes "decode_run source r byte2 target idx = Inr (r', t', i')"
  shows "reader_position r \<le> reader_position r' \<and> reader_length r' = reader_length r"
proof -
  from assms obtain num r3 v where
    a: "read_run_length r byte2 = Inr (num, r3)" and
    b: "read_run_value source r3 byte2 = Inr (v, r')"
    by (auto simp: decode_run_def split: sum.splits prod.splits)
  from read_run_length_position [OF a] read_run_value_position [OF b]
  show ?thesis by simp
qed

lemma decode_body_position:
  assumes "decode_body source (reader, target, idx) = Inr (r', t', i')"
  shows "reader_position reader < reader_position r' \<and> reader_length r' = reader_length reader"
proof -
  from assms obtain byte1 r1 where
    r1: "reader_readByte reader = Inr (byte1, r1)"
    by (auto split: sum.splits)
  note p1 = reader_readByte_position [OF r1]
  show ?thesis
  proof (cases "byte1 \<noteq> Some 0")
    case True
    with assms r1 p1 show ?thesis by simp
  next
    case False
    with assms r1 obtain byte2 r2 where
      r2: "reader_readByte r1 = Inr (byte2, r2)"
      by (auto split: sum.splits)
    note p2 = reader_readByte_position [OF r2]
    show ?thesis
    proof (cases "byte2 = Some 0")
      case True
      with assms r1 r2 False p1 p2 show ?thesis by simp
    next
      case nz: False
      with assms r1 r2 False
      have "decode_run source r2 byte2 target idx = Inr (r', t', i')" by simp
      from decode_run_position [OF this] p1 p2 show ?thesis by simp
    qed
  qed
qed

text \<open>\<open>while (reader.position < len) { ... } return idx\<close>. The result is the count and
  the buffer as the loop left it.\<close>

function decode_loop ::
  "pixel list \<Rightarrow> nat \<Rightarrow> reader \<times> pixel list \<times> nat \<Rightarrow> error + (nat \<times> pixel list)" where
  "decode_loop source len (reader, target, idx) =
     (if reader_position reader < len
      then (case decode_body source (reader, target, idx) of
              Inl e \<Rightarrow> Inl e
            | Inr st' \<Rightarrow> decode_loop source len st')
      else Inr (idx, target))"
  by pat_completeness auto
termination
proof (relation "measure (\<lambda>(source, len, reader, target, idx). len - reader_position reader)")
  show "wf (measure (\<lambda>(source, len, reader, target, idx). len - reader_position reader))"
    by simp
next
  fix source :: "pixel list" and len reader target idx st'
  assume a: "reader_position reader < len"
    and b: "decode_body source (reader, target, idx) = Inr st'"
  obtain r' t' i' where st': "st' = (r', t', i')" by (cases st') auto
  from b st' have "reader_position reader < reader_position r'"
    using decode_body_position by blast
  with a st' show "((source, len, st'), (source, len, reader, target, idx))
      \<in> measure (\<lambda>(source, len, reader, target, idx). len - reader_position reader)"
    by simp
qed

declare decode_loop.simps [simp del]

subsection \<open>\<open>decodeFast\<close> over a flat \<open>Uint8Array\<close>\<close>

text \<open>One pass through the body of \<open>while (pos < len)\<close>. With a \<open>Uint32Array\<close> target a
  run longer than 16 pixels is written by \<open>fill\<close>, a shorter one by the unrolled loop.\<close>

fun decodeFast_body ::
  "byte list \<Rightarrow> pixel list \<Rightarrow> pixel list \<times> nat \<times> nat \<Rightarrow> pixel list \<times> nat \<times> nat" where
  "decodeFast_body data source (target, idx, pos) =
     (let byte1 = data_at data pos in
      if byte1 \<noteq> Some 0
      then (store target idx (source_at source byte1), idx + 1, pos + 1)
      else
       (let byte2 = data_at data (pos + 1) in
        if byte2 = Some 0 then (target, idx, pos + 2)
        else
         (case (if bit7 byte2 \<noteq> 0
                then (num14 (num6 byte2) (data_at data (pos + 2)), pos + 3)
                else (num6 byte2, pos + 2)) of
            (num, pos3) \<Rightarrow>
              (case (if bit8 byte2 \<noteq> 0
                     then (source_at source (data_at data pos3), pos3 + 1)
                     else (source_at source (Some 0), pos3)) of
                 (v, pos4) \<Rightarrow>
                   (if num > 16
                    then (u32_fill target v idx (idx + num), idx + num, pos4)
                    else (case fill_unrolled target v idx num of
                            (target', idx') \<Rightarrow> (target', idx', pos4)))))))"

lemma decodeFast_body_position:
  assumes "decodeFast_body data source (target, idx, pos) = (t', i', pos')"
  shows "pos < pos'"
  using assms by (auto simp: Let_def split: if_splits prod.splits)

function decodeFast_loop ::
  "byte list \<Rightarrow> pixel list \<Rightarrow> pixel list \<times> nat \<times> nat \<Rightarrow> nat \<times> pixel list" where
  "decodeFast_loop data source (target, idx, pos) =
     (if pos < length data
      then decodeFast_loop data source (decodeFast_body data source (target, idx, pos))
      else (idx, target))"
  by pat_completeness auto
termination
proof (relation "measure (\<lambda>(data, source, target, idx, pos). length data - pos)")
  show "wf (measure (\<lambda>(data, source, target, idx, pos). length data - pos))" by simp
next
  fix data :: "byte list" and source :: "pixel list" and target idx pos
  assume a: "pos < length data"
  obtain t' i' p' where st: "decodeFast_body data source (target, idx, pos) = (t', i', p')"
    by (cases "decodeFast_body data source (target, idx, pos)") auto
  then have "pos < p'" by (rule decodeFast_body_position)
  with a st show "((data, source, decodeFast_body data source (target, idx, pos)),
        (data, source, target, idx, pos))
      \<in> measure (\<lambda>(data, source, target, idx, pos). length data - pos)"
    by simp
qed

declare decodeFast_loop.simps [simp del]

definition decodeFast :: "byte list \<Rightarrow> pixel list \<Rightarrow> pixel list \<Rightarrow> nat \<times> pixel list" where
  "decodeFast data source target = decodeFast_loop data source (target, 0, 0)"

text \<open>\<open>decode(reader: BinaryReader | Uint8Array, source, target)\<close>: a \<open>Uint8Array\<close> goes
  to \<open>decodeFast\<close>, a reader through the loop above.\<close>

datatype rle_input = FromReader reader | FromArray "byte list"

fun decode :: "rle_input \<Rightarrow> pixel list \<Rightarrow> pixel list \<Rightarrow> error + (nat \<times> pixel list)" where
  "decode (FromArray data) source target = Inr (decodeFast data source target)"
| "decode (FromReader reader) source target =
     decode_loop source (reader_length reader) (reader, target, 0)"

section \<open>The decoding rule of the specification\<close>

text \<open>
  The rule, read left to right over the input bytes: a byte \<open>B1 \<noteq> 0\<close> emits one pixel
  \<open>palette[B1]\<close>; \<open>B1 = 0, B2 = 0\<close> emits nothing; \<open>B1 = 0, B2 \<noteq> 0\<close> is a run of \<open>L\<close>
  pixels, \<open>L = B2 & 0x3F\<close>, extended by a byte \<open>B3\<close> to \<open>(L << 8) | B3\<close> when \<open>B2 & 0x40\<close>
  is set, of colour \<open>palette[C]\<close> for a further byte \<open>C\<close> when \<open>B2 & 0x80\<close> is set and
  \<open>palette[0]\<close> otherwise. The rule names bytes that it consumes; where the input ends
  before such a byte the rule gives no result (\<open>None\<close>).
\<close>

definition palette_entry :: "pixel list \<Rightarrow> byte \<Rightarrow> pixel" where
  "palette_entry palette b = to_u32 (source_at palette (Some b))"

definition run_extra :: "byte \<Rightarrow> nat" where
  "run_extra B2 =
     (if unat B2 AND 0x40 \<noteq> 0 then 1 else 0) + (if unat B2 AND 0x80 \<noteq> 0 then 1 else 0)"

fun whole_instructions :: "byte list \<Rightarrow> bool" where
  "whole_instructions [] = True"
| "whole_instructions (B1 # rest) =
     (if B1 \<noteq> 0 then whole_instructions rest
      else (case rest of
              [] \<Rightarrow> False
            | B2 # rest2 \<Rightarrow>
                if B2 = 0 then whole_instructions rest2
                else run_extra B2 \<le> length rest2 \<and> whole_instructions (drop (run_extra B2) rest2)))"

fun rle_spec :: "pixel list \<Rightarrow> byte list \<Rightarrow> pixel list option" where
  "rle_spec palette [] = Some []"
| "rle_spec palette (B1 # rest) =
     (if B1 \<noteq> 0 then map_option ((#) (palette_entry palette B1)) (rle_spec palette rest)
      else (case rest of
              [] \<Rightarrow> None
            | B2 # rest2 \<Rightarrow>
                if B2 = 0 then rle_spec palette rest2
                else if length rest2 < run_extra B2 then None
                else
                  (let L = (if unat B2 AND 0x40 \<noteq> 0
                            then push_bit 8 (unat B2 AND 0x3F) OR unat (rest2 ! 0)
                            else unat B2 AND 0x3F);
                       color = (if unat B2 AND 0x80 \<noteq> 0
                                then palette_entry palette
                                       (rest2 ! (if unat B2 AND 0x40 \<noteq> 0 then 1 else 0))
                                else palette_entry palette 0)
                   in map_option ((@) (replicate L color))
                        (rle_spec palette (drop (run_extra B2) rest2)))))"

definition written :: "pixel list \<Rightarrow> nat \<Rightarrow> pixel list \<Rightarrow> pixel list" where
  "written target idx pixels =
     take (length target) (take idx target @ pixels @ drop (idx + length pixels) target)"


section \<open>One instruction of the encoding, as the decoders read it\<close>

text \<open>
  The pixels that the instruction at \<open>pos\<close> emits and the number of bytes it takes, with
  the bytes past the end of the data read as \<open>undefined\<close>. Each of the three decoders is
  compared with it below.
\<close>

definition instruction :: "byte list \<Rightarrow> pixel list \<Rightarrow> nat \<Rightarrow> pixel list \<times> nat" where
  "instruction data source pos =
     (let byte1 = data_at data pos in
      if byte1 \<noteq> Some 0 then ([to_u32 (source_at source byte1)], 1)
      else
       (let byte2 = data_at data (pos + 1) in
        if byte2 = Some 0 then ([], 2)
        else
         (let ext = (if bit7 byte2 \<noteq> 0 then 1 else 0);
              num = (if bit7 byte2 \<noteq> 0
                     then num14 (num6 byte2) (data_at data (pos + 2)) else num6 byte2);
              v = (if bit8 byte2 \<noteq> 0
                   then source_at source (data_at data (pos + 2 + ext))
                   else source_at source (Some 0))
          in (replicate num (to_u32 v), 2 + ext + (if bit8 byte2 \<noteq> 0 then 1 else 0)))))"


section \<open>What the readers have left to read\<close>

definition unread :: "array_reader \<Rightarrow> byte list" where
  "unread r = drop (ar_position r) (ar_array r)"

definition remaining :: "combined_reader \<Rightarrow> byte list" where
  "remaining c = concat (map unread (drop (subReaderIndex c) (subReaders c)))"

definition cinv :: "combined_reader \<Rightarrow> bool" where
  "cinv c \<longleftrightarrow>
     (\<forall>r \<in> set (subReaders c). ar_length r = length (ar_array r)) \<and>
     currentSubReader c =
       (if subReaderIndex c < length (subReaders c) then Some (subReaderIndex c) else None)"

fun reads :: "reader \<Rightarrow> byte list \<Rightarrow> nat \<Rightarrow> bool" where
  "reads (ArrayReader a) data pos \<longleftrightarrow>
     ar_array a = data \<and> ar_length a = length data \<and> ar_position a = pos"
| "reads (CombinedReader c) data pos \<longleftrightarrow>
     cinv c \<and> c_length c = length data \<and> c_position c = pos \<and> pos \<le> length data \<and>
     remaining c = drop pos data"

fun is_array :: "reader \<Rightarrow> bool" where
  "is_array (ArrayReader a) = True"
| "is_array (CombinedReader c) = False"


section \<open>JavaScript numbers\<close>

text \<open>
  A query time is a JavaScript \<open>number\<close>, an IEEE 754 double: \<open>NaN\<close>, an infinity, or a
  finite value, kept here as a pair of integers \<open>Finite m e\<close> that stands for \<open>m * 2^e\<close>
  (\<open>dyadic\<close>). Every finite double is such a pair, with a mantissa of at most 53 binary
  digits; what is proved below for every pair holds for the doubles among them. The sign
  of a zero is not kept: no operation below tells the zeros apart. Arithmetic on doubles
  gives the exact result rounded to the nearest double, ties to the even mantissa.
\<close>

datatype number = NaN | PosInf | NegInf | Finite int int

definition dyadic :: "int \<Rightarrow> int \<Rightarrow> real" where
  "dyadic m e = (if 0 \<le> e then of_int m * 2 ^ nat e else of_int m / 2 ^ nat (- e))"

text \<open>The number of binary digits of \<open>n\<close>.\<close>

fun bit_length :: "nat \<Rightarrow> nat" where
  "bit_length n = (if n = 0 then 0 else Suc (bit_length (n div 2)))"

declare bit_length.simps [simp del]

text \<open>The exponent of the leading binary digit of \<open>a / d\<close>, for \<open>a > 0\<close> and \<open>d > 0\<close>.\<close>

definition floor_log2 :: "nat \<Rightarrow> nat \<Rightarrow> int" where
  "floor_log2 a d =
     (let g = int (bit_length a) - int (bit_length d) in
      if (if 0 \<le> g then d * 2 ^ nat g \<le> a else d \<le> a * 2 ^ nat (- g)) then g else g - 1)"

text \<open>The integer nearest to \<open>num / den\<close>, the even one of two that are equally near.\<close>

definition round_half_even :: "nat \<Rightarrow> nat \<Rightarrow> nat" where
  "round_half_even num den =
     (let q = num div den; r = num mod den in
      if 2 * r < den then q
      else if den < 2 * r then q + 1
      else if even q then q else q + 1)"

text \<open>The integer nearest to \<open>(a / d) * 2^sh\<close>.\<close>

definition scaled_round :: "nat \<Rightarrow> nat \<Rightarrow> int \<Rightarrow> nat" where
  "scaled_round a d sh =
     (if 0 \<le> sh then round_half_even (a * 2 ^ nat sh) d
      else round_half_even a (d * 2 ^ nat (- sh)))"

text \<open>A mantissa \<open>m \<le> 2^53\<close> at the exponent \<open>k\<close>, with the sign \<open>s\<close>: the largest finite
  double is \<open>(2^53 - 1) * 2^971\<close>, anything that rounds above it is an infinity.\<close>

definition pack :: "int \<Rightarrow> nat \<Rightarrow> int \<Rightarrow> number" where
  "pack s m k =
     (if 971 < k \<or> (k = 971 \<and> 2 ^ 53 \<le> m) then (if 0 < s then PosInf else NegInf)
      else Finite (s * int m) k)"

text \<open>
  The double nearest to the rational \<open>(n / d) * 2^e\<close>, \<open>d > 0\<close>: the mantissa has 53 binary
  digits, so the exponent \<open>k\<close> of its last digit is 52 below that of the leading digit of
  the value, and not below -1074, the exponent of the subnormal doubles.
\<close>

definition round_double :: "int \<Rightarrow> nat \<Rightarrow> int \<Rightarrow> number" where
  "round_double n d e =
     (if n = 0 then Finite 0 0
      else
       (let a = nat \<bar>n\<bar>;
            k = max (floor_log2 a d + e - 52) (- 1074)
        in pack (sgn n) (scaled_round a d (e - k)) k))"

fun js_sign :: "number \<Rightarrow> int" where
  "js_sign NaN = 0"
| "js_sign PosInf = 1"
| "js_sign NegInf = - 1"
| "js_sign (Finite m e) = sgn m"

text \<open>\<open>x * y\<close>: the rounded product of two finite numbers; \<open>NaN\<close> if an operand is \<open>NaN\<close> or
  the operands are a zero and an infinity; otherwise the infinity of the product's sign.\<close>

fun js_times :: "number \<Rightarrow> number \<Rightarrow> number" where
  "js_times (Finite m1 e1) (Finite m2 e2) = round_double (m1 * m2) 1 (e1 + e2)"
| "js_times NaN y = NaN"
| "js_times x NaN = NaN"
| "js_times x y =
     (if js_sign x * js_sign y = 0 then NaN
      else if 0 < js_sign x * js_sign y then PosInf else NegInf)"

text \<open>
  The comparisons of a number with a timestamp. A timestamp is an unsigned tick count, a
  number that the double holds exactly. Every comparison with \<open>NaN\<close> is false.
\<close>

fun js_ge :: "number \<Rightarrow> nat \<Rightarrow> bool" where
  "js_ge NaN T = False"
| "js_ge PosInf T = True"
| "js_ge NegInf T = False"
| "js_ge (Finite m e) T = (real T \<le> dyadic m e)"

fun js_lt :: "number \<Rightarrow> nat \<Rightarrow> bool" where
  "js_lt NaN T = False"
| "js_lt PosInf T = False"
| "js_lt NegInf T = True"
| "js_lt (Finite m e) T = (dyadic m e < real T)"

fun js_le :: "nat \<Rightarrow> number \<Rightarrow> bool" where
  "js_le T NaN = False"
| "js_le T PosInf = True"
| "js_le T NegInf = False"
| "js_le T (Finite m e) = (real T \<le> dyadic m e)"

text \<open>\<open>T / 90000\<close> for a tick count \<open>T\<close>: the double nearest to the quotient.\<close>

definition seconds_of_ticks :: "nat \<Rightarrow> number" where
  "seconds_of_ticks T = round_double (int T) 90000 0"


section \<open>PgsRendererHelper.getIndexFromTimestamps\<close>

text \<open>
  The query time is a number of seconds and \<open>time * 90000\<close> is the product in doubles; the
  timestamps are the unsigned tick counts of the display sets. \<open>pgsTimestamps[mid]\<close>
  outside the list is \<open>undefined\<close>, and \<open>undefined <= pgsTime\<close> is false. \<open>x >>> 1\<close> takes \<open>x\<close>
  modulo \<open>2^32\<close> before halving it. The loop is written as it is, with no claim of its own
  that it ends: \<open>None\<close> stands for a search that does not return.
\<close>

definition pgsTime_of :: "number \<Rightarrow> number" where
  "pgsTime_of time = js_times time (Finite 90000 0)"

definition ts_at :: "nat list \<Rightarrow> int \<Rightarrow> nat option" where
  "ts_at pgsTimestamps i =
     (if 0 \<le> i \<and> i < int (length pgsTimestamps) then Some (pgsTimestamps ! nat i) else None)"

definition ts_le :: "nat list \<Rightarrow> int \<Rightarrow> number \<Rightarrow> bool" where
  "ts_le pgsTimestamps mid pgsTime =
     (case ts_at pgsTimestamps mid of None \<Rightarrow> False | Some v \<Rightarrow> js_le v pgsTime)"

definition ushr1 :: "int \<Rightarrow> int" where
  "ushr1 x = (x mod 2 ^ 32) div 2"

partial_function (option) search_loop :: "nat list \<Rightarrow> number \<Rightarrow> int \<Rightarrow> int \<Rightarrow> int option" where
  "search_loop pgsTimestamps pgsTime left right =
     (if left < right
      then (let mid = ushr1 (left + right + 1) in
            if ts_le pgsTimestamps mid pgsTime
            then search_loop pgsTimestamps pgsTime mid right
            else search_loop pgsTimestamps pgsTime left (mid - 1))
      else Some left)"

definition getIndexFromTimestamps :: "number \<Rightarrow> nat list \<Rightarrow> int option" where
  "getIndexFromTimestamps time pgsTimestamps =
     (let len = length pgsTimestamps in
      if len = 0 then Some (- 1)
      else
       (let pgsTime = pgsTime_of time in
        if js_ge pgsTime (pgsTimestamps ! (len - 1)) then Some (- 1)
        else if js_lt pgsTime (pgsTimestamps ! 0) then Some (- 1)
        else search_loop pgsTimestamps pgsTime 0 (int len - 1)))"


section \<open>Segments, display sets and compiled subtitles\<close>

text \<open>
  Modelled from the spec: the segment classes (\<open>DisplaySet\<close>, \<open>PresentationCompositionSegment\<close>
  with its \<open>CompositionObject\<close>, \<open>PaletteDefinitionSegment\<close>, \<open>ObjectDefinitionSegment\<close>,
  \<open>WindowDefinitionSegment\<close> with its \<open>WindowDefinition\<close>) and the result classes
  (\<open>SubtitleData\<close>, \<open>SubtitleCompositionData\<close>, \<open>ImageData\<close>) are not among the sources.
  The records carry the attributes that section 3 of the specification lists, under the
  names by which \<open>Pgs\<close> reads them; a prefix keeps the names of different records apart.
  An absent composition and an absent data fragment are \<open>None\<close>.
\<close>

record window_definition =
  w_id :: nat
  w_horizontalPosition :: nat
  w_verticalPosition :: nat
  w_width :: nat
  w_height :: nat

record window_definition_segment =
  windows :: "window_definition list"

record palette_definition_segment =
  p_id :: nat
  rgba :: "pixel list"

record object_definition_segment =
  o_id :: nat
  isFirstInSequence :: bool
  o_width :: nat
  o_height :: nat
  o_data :: "byte list option"

record composition_object =
  co_id :: nat
  windowId :: nat
  co_horizontalPosition :: nat
  co_verticalPosition :: nat
  hasCropping :: bool
  croppingHorizontalPosition :: nat
  croppingVerticalPosition :: nat
  croppingWidth :: nat
  croppingHeight :: nat

record presentation_composition_segment =
  pc_width :: nat
  pc_height :: nat
  paletteId :: nat
  compositionState :: nat
  compositionObjects :: "composition_object list"

record display_set =
  presentationTimestamp :: nat
  presentationComposition :: "presentation_composition_segment option"
  paletteDefinitions :: "palette_definition_segment list"
  objectDefinitions :: "object_definition_segment list"
  windowDefinitions :: "window_definition_segment list"

record image_data =
  img_width :: nat
  img_height :: nat
  img_data :: "pixel list"

record subtitle_composition_data =
  scd_compositionObject :: composition_object
  scd_window :: window_definition
  scd_pixelData :: image_data

record subtitle_data =
  sd_width :: nat
  sd_height :: nat
  sd_compositionData :: "subtitle_composition_data list"

section \<open>SubtitleCache\<close>

text \<open>
  A JavaScript \<open>Map\<close> keeps its entries in insertion order: it is a list of key-value
  pairs. \<open>get\<close> gives \<open>undefined\<close> (\<open>None\<close>) for a key that is not there, \<open>set\<close> on a key
  that is there replaces the value in place, and on a new key appends the entry.
\<close>

type_synonym ('k, 'v) js_map = "('k \<times> 'v) list"

definition js_map_has :: "('k, 'v) js_map \<Rightarrow> 'k \<Rightarrow> bool" where
  "js_map_has m k = (k \<in> set (map fst m))"

definition js_map_get :: "('k, 'v) js_map \<Rightarrow> 'k \<Rightarrow> 'v option" where
  "js_map_get m k = map_of m k"

definition js_map_delete :: "('k, 'v) js_map \<Rightarrow> 'k \<Rightarrow> ('k, 'v) js_map" where
  "js_map_delete m k = filter (\<lambda>e. fst e \<noteq> k) m"

definition js_map_set :: "('k, 'v) js_map \<Rightarrow> 'k \<Rightarrow> 'v \<Rightarrow> ('k, 'v) js_map" where
  "js_map_set m k v =
     (if js_map_has m k then map (\<lambda>e. if fst e = k then (k, v) else e) m else m @ [(k, v)])"

definition js_map_first_key :: "('k, 'v) js_map \<Rightarrow> 'k option" where
  "js_map_first_key m = (case m of [] \<Rightarrow> None | e # _ \<Rightarrow> Some (fst e))"

text \<open>The cache maps an index to \<open>SubtitleData | undefined\<close>; the stored \<open>undefined\<close> is
  \<open>None\<close>.\<close>

record subtitle_cache =
  maxSize :: nat
  cache :: "(int, subtitle_data option) js_map"

definition new_SubtitleCache :: "nat \<Rightarrow> subtitle_cache" where
  "new_SubtitleCache n = \<lparr>maxSize = n, cache = []\<rparr>"

text \<open>The result of \<open>SubtitleCache.get\<close>, of type \<open>SubtitleData | undefined | null\<close>:
  \<open>Null\<close> is \<open>null\<close>, \<open>Value None\<close> is \<open>undefined\<close>.\<close>

datatype lookup = Null | Value "subtitle_data option"

text \<open>\<open>get\<close>: \<open>const value = this.cache.get(index)\<close> is \<open>undefined\<close> both for a missing
  key and for a stored \<open>undefined\<close>; only \<open>value !== undefined\<close> moves the entry to the
  end and returns it.\<close>

definition SubtitleCache_get :: "subtitle_cache \<Rightarrow> int \<Rightarrow> lookup \<times> subtitle_cache" where
  "SubtitleCache_get c index =
     (let value = (case js_map_get (cache c) index of None \<Rightarrow> None | Some v \<Rightarrow> v) in
      case value of
        Some sd \<Rightarrow>
          (Value (Some sd),
           c\<lparr>cache := js_map_set (js_map_delete (cache c) index) index (Some sd)\<rparr>)
      | None \<Rightarrow> (Null, c))"

definition SubtitleCache_set ::
  "subtitle_cache \<Rightarrow> int \<Rightarrow> subtitle_data option \<Rightarrow> subtitle_cache" where
  "SubtitleCache_set c index value =
     (let m = (if js_map_has (cache c) index then js_map_delete (cache c) index
               else if length (cache c) \<ge> maxSize c
                    then (case js_map_first_key (cache c) of
                            Some firstKey \<Rightarrow> js_map_delete (cache c) firstKey
                          | None \<Rightarrow> cache c)
                    else cache c)
      in c\<lparr>cache := js_map_set m index value\<rparr>)"

definition SubtitleCache_clear :: "subtitle_cache \<Rightarrow> subtitle_cache" where
  "SubtitleCache_clear c = c\<lparr>cache := []\<rparr>"

section \<open>Pgs\<close>

record pgs =
  displaySets :: "display_set list"
  updateTimestamps :: "nat list"
  subtitleCache :: subtitle_cache

definition new_Pgs :: pgs where
  "new_Pgs = \<lparr>displaySets = [], updateTimestamps = [], subtitleCache = new_SubtitleCache 8\<rparr>"

subsection \<open>\<open>getPixelDataFromComposition\<close>\<close>

text \<open>The loop over \<open>ctxObjects\<close>: the size comes from a fragment that is first in its
  sequence, and every fragment of the object that has data adds a chunk.\<close>

definition gather_fragment ::
  "composition_object \<Rightarrow> nat \<times> nat \<times> byte list list \<Rightarrow> object_definition_segment
     \<Rightarrow> nat \<times> nat \<times> byte list list" where
  "gather_fragment composition acc ods =
     (case acc of (width, height, dataChunks) \<Rightarrow>
        if o_id ods \<noteq> co_id composition then (width, height, dataChunks)
        else
          (if isFirstInSequence ods then o_width ods else width,
           if isFirstInSequence ods then o_height ods else height,
           case o_data ods of Some d \<Rightarrow> dataChunks @ [d] | None \<Rightarrow> dataChunks))"

text \<open>
  The image is built as on a page with a \<open>document\<close>: \<open>createImageData(width, height)\<close>
  throws an IndexSizeError for an empty image, the buffer is the zeroed \<open>Uint32Array\<close> over
  the image, and \<open>decode\<close> fills it through a \<open>CombinedBinaryReader\<close> over the chunks. The
  count that \<open>decode\<close> returns is dropped.
\<close>

definition getPixelDataFromComposition ::
  "composition_object \<Rightarrow> palette_definition_segment \<Rightarrow> object_definition_segment list
     \<Rightarrow> error + image_data option" where
  "getPixelDataFromComposition composition palette ctxObjects =
     (case foldl (gather_fragment composition) (0, 0, []) ctxObjects of
        (width, height, dataChunks) \<Rightarrow>
          if length dataChunks = 0 then Inr None
          else if width = 0 \<or> height = 0 then Inl IndexSizeError
          else
            (case decode (FromReader (CombinedReader (new_CombinedBinaryReader dataChunks)))
                    (rgba palette) (replicate (width * height) 0) of
               Inl e \<Rightarrow> Inl e
             | Inr (n, imageBuffer) \<Rightarrow>
                 Inr (Some \<lparr>img_width = width, img_height = height, img_data = imageBuffer\<rparr>)))"

subsection \<open>\<open>computeSubtitleAtIndex\<close>: the backward scan\<close>

record accumulators =
  ctxObjects :: "object_definition_segment list"
  ctxPalettes :: "palette_definition_segment list"
  ctxWindows :: "window_definition list"

definition empty_context :: accumulators where
  "empty_context = \<lparr>ctxObjects = [], ctxPalettes = [], ctxWindows = []\<rparr>"

text \<open>\<open>arr.unshift(...items)\<close> puts the items, in their order, in front of the array.\<close>

definition unshift :: "'a list \<Rightarrow> 'a list \<Rightarrow> 'a list" where
  "unshift arr items = items @ arr"

text \<open>The three accumulations of one pass; the windows are unshifted one
  \<open>WindowDefinitionSegment\<close> after the other, in a \<open>for\<close> loop.\<close>

definition accumulate :: "display_set \<Rightarrow> accumulators \<Rightarrow> accumulators" where
  "accumulate currentSet ctx =
     \<lparr>ctxObjects = unshift (ctxObjects ctx) (objectDefinitions currentSet),
      ctxPalettes = unshift (ctxPalettes ctx) (paletteDefinitions currentSet),
      ctxWindows = foldl (\<lambda>ws windowDefinition. unshift ws (windows windowDefinition))
                     (ctxWindows ctx) (windowDefinitions currentSet)\<rparr>"

text \<open>\<open>currentSet.presentationComposition?.compositionState !== 0\<close>: with no composition
  the left side is \<open>undefined\<close>, which is not 0.\<close>

definition stops_scan :: "display_set \<Rightarrow> bool" where
  "stops_scan currentSet =
     (map_option compositionState (presentationComposition currentSet) \<noteq> Some 0)"

text \<open>\<open>while (curIndex >= 0) { ...; if (...) break; curIndex-- }\<close>. The result is the
  context and the value of \<open>curIndex\<close> when the loop is left: the index of the display set
  at which it broke, or -1. Reading \<open>displaySets[curIndex]\<close> outside the list gives
  \<open>undefined\<close>, and the access to its fields throws.\<close>

function scan :: "display_set list \<Rightarrow> int \<Rightarrow> accumulators \<Rightarrow> error + (accumulators \<times> int)" where
  "scan dss curIndex ctx =
     (if curIndex \<ge> 0
      then (if nat curIndex < length dss
            then (let currentSet = dss ! nat curIndex;
                      ctx' = accumulate currentSet ctx
                  in if stops_scan currentSet then Inr (ctx', curIndex)
                     else scan dss (curIndex - 1) ctx')
            else Inl TypeError)
      else Inr (ctx, curIndex))"
  by pat_completeness auto
termination
  by (relation "measure (\<lambda>(dss, curIndex, ctx). nat (curIndex + 1))") auto

declare scan.simps [simp del]

subsection \<open>\<open>computeSubtitleAtIndex\<close>: the compilation\<close>

text \<open>The loop over the composition objects: an object without a window or without
  pixel data is skipped, an error of the decoder ends the compilation.\<close>

fun compile_objects ::
  "accumulators \<Rightarrow> palette_definition_segment \<Rightarrow> composition_object list
     \<Rightarrow> subtitle_composition_data list \<Rightarrow> error + subtitle_composition_data list" where
  "compile_objects ctx palette [] compositionData = Inr compositionData"
| "compile_objects ctx palette (compositionObject # rest) compositionData =
     (case find (\<lambda>w. w_id w = windowId compositionObject) (ctxWindows ctx) of
        None \<Rightarrow> compile_objects ctx palette rest compositionData
      | Some window \<Rightarrow>
          (case getPixelDataFromComposition compositionObject palette (ctxObjects ctx) of
             Inl e \<Rightarrow> Inl e
           | Inr None \<Rightarrow> compile_objects ctx palette rest compositionData
           | Inr (Some pixelData) \<Rightarrow>
               compile_objects ctx palette rest
                 (compositionData @
                    [\<lparr>scd_compositionObject = compositionObject, scd_window = window,
                      scd_pixelData = pixelData\<rparr>])))"

definition computeSubtitleAtIndex :: "pgs \<Rightarrow> int \<Rightarrow> error + subtitle_data option" where
  "computeSubtitleAtIndex p index =
     (if index < 0 \<or> index \<ge> int (length (displaySets p)) then Inr None
      else
        (let displaySet = displaySets p ! nat index in
         case presentationComposition displaySet of
           None \<Rightarrow> Inr None
         | Some pc \<Rightarrow>
             (case scan (displaySets p) index empty_context of
                Inl e \<Rightarrow> Inl e
              | Inr (ctx, curIndex) \<Rightarrow>
                  (case find (\<lambda>w. p_id w = paletteId pc) (ctxPalettes ctx) of
                     None \<Rightarrow> Inr None
                   | Some palette \<Rightarrow>
                       (case compile_objects ctx palette (compositionObjects pc) [] of
                          Inl e \<Rightarrow> Inl e
                        | Inr compositionData \<Rightarrow>
                            if length compositionData = 0 then Inr None
                            else Inr (Some \<lparr>sd_width = pc_width pc, sd_height = pc_height pc,
                                            sd_compositionData = compositionData\<rparr>))))))"

subsection \<open>The lookups\<close>

text \<open>\<open>getSubtitleAtIndex\<close>: the result and the \<open>Pgs\<close> with its cache as the call leaves
  it. An error of the compilation leaves the cache as the lookup left it.\<close>

definition getSubtitleAtIndex :: "pgs \<Rightarrow> int \<Rightarrow> (error + subtitle_data option) \<times> pgs" where
  "getSubtitleAtIndex p index =
     (case SubtitleCache_get (subtitleCache p) index of
        (Value cached, c) \<Rightarrow> (Inr cached, p\<lparr>subtitleCache := c\<rparr>)
      | (Null, c) \<Rightarrow>
          (case computeSubtitleAtIndex p index of
             Inl e \<Rightarrow> (Inl e, p\<lparr>subtitleCache := c\<rparr>)
           | Inr result \<Rightarrow> (Inr result, p\<lparr>subtitleCache := SubtitleCache_set c index result\<rparr>)))"

text \<open>\<open>getSubtitleAtTimestamp\<close>; \<open>None\<close> when the search for the index does not return.\<close>

definition getSubtitleAtTimestamp ::
  "pgs \<Rightarrow> number \<Rightarrow> ((error + subtitle_data option) \<times> pgs) option" where
  "getSubtitleAtTimestamp p time =
     (case getIndexFromTimestamps time (updateTimestamps p) of
        None \<Rightarrow> None
      | Some index \<Rightarrow> Some (getSubtitleAtIndex p index))"


section \<open>Loading\<close>

text \<open>
  \<open>DisplaySet.read\<close>, the parser of one display set, and the readers of a stream are not
  among the sources. \<open>loadFromReader\<close> takes them as parameters: \<open>eof\<close> is the reader's
  \<open>eof\<close>, and \<open>read\<close> stands for \<open>displaySet.read(bigEndianReader, true)\<close> on a fresh
  display set, which returns the display set read and the reader behind it, or throws.
  The result of a load is the error with which its promise is rejected (\<open>None\<close> when it is
  fulfilled) and the \<open>Pgs\<close> as the load leaves it; \<open>None\<close> stands for a load that does not
  end. The \<open>onProgress\<close> callback does not touch the \<open>Pgs\<close> and is left out.
\<close>

partial_function (option) load_loop ::
  "('r \<Rightarrow> bool) \<Rightarrow> ('r \<Rightarrow> error + display_set \<times> 'r) \<Rightarrow> 'r \<Rightarrow> pgs \<Rightarrow> (error option \<times> pgs) option" where
  "load_loop eof read reader p =
     (if \<not> eof reader
      then (case read reader of
              Inl e \<Rightarrow> Some (Some e, p)
            | Inr (displaySet, reader') \<Rightarrow>
                load_loop eof read reader'
                  (p\<lparr>displaySets := displaySets p @ [displaySet],
                     updateTimestamps := updateTimestamps p @ [presentationTimestamp displaySet]\<rparr>))
      else Some (None, p))"


text \<open>\<open>loadFromReader\<close> resets the display sets, the timestamps and the cache, and then
  reads display sets until the reader is at its end.\<close>

definition loadFromReader ::
  "('r \<Rightarrow> bool) \<Rightarrow> ('r \<Rightarrow> error + display_set \<times> 'r) \<Rightarrow> 'r \<Rightarrow> pgs \<Rightarrow> (error option \<times> pgs) option" where
  "loadFromReader eof read reader p =
     load_loop eof read reader
       (p\<lparr>displaySets := [], updateTimestamps := [],
          subtitleCache := SubtitleCache_clear (subtitleCache p)\<rparr>)"

text \<open>The outcome of \<open>await fetch(url)\<close>: the promise is rejected (\<open>Inl\<close>), or it gives a
  response. The body of the response is the reader that \<open>loadFromUrl\<close> builds on it, a
  \<open>StreamBinaryReader\<close> or an \<open>ArrayBinaryReader\<close> over the whole body; reading the whole
  body can fail before there is a reader.\<close>

record 'r response =
  ok :: bool
  status :: nat
  body :: "error + 'r"

definition loadFromUrl ::
  "('r \<Rightarrow> bool) \<Rightarrow> ('r \<Rightarrow> error + display_set \<times> 'r) \<Rightarrow> error + 'r response \<Rightarrow> pgs
     \<Rightarrow> (error option \<times> pgs) option" where
  "loadFromUrl eof read fetched p =
     (case fetched of
        Inl e \<Rightarrow> Some (Some e, p)
      | Inr response \<Rightarrow>
          if \<not> ok response then Some (Some (HttpError (status response)), p)
          else (case body response of
                  Inl e \<Rightarrow> Some (Some e, p)
                | Inr reader \<Rightarrow> loadFromReader eof read reader p))"

text \<open>A stream that parses into a given sequence of display sets, as a reader: the
  display sets still to come.\<close>

definition parsed_eof :: "display_set list \<Rightarrow> bool" where
  "parsed_eof reader = (reader = [])"

definition parsed_read :: "display_set list \<Rightarrow> error + display_set \<times> display_set list" where
  "parsed_read reader = (case reader of [] \<Rightarrow> Inl TypeError | ds # rest \<Rightarrow> Inr (ds, rest))"

text \<open>A reader whose transport fails at once.\<close>

definition broken_eof :: "unit \<Rightarrow> bool" where
  "broken_eof reader = False"

definition broken_read :: "unit \<Rightarrow> error + display_set \<times> unit" where
  "broken_read reader = Inl TransportFailure"

section \<open>Sequences of cache operations and of lookups\<close>

datatype cache_op = CacheGet int | CacheSet int "subtitle_data option"

fun apply_op :: "subtitle_cache \<Rightarrow> cache_op \<Rightarrow> subtitle_cache" where
  "apply_op c (CacheGet index) = snd (SubtitleCache_get c index)"
| "apply_op c (CacheSet index v) = SubtitleCache_set c index v"

definition lookups :: "pgs \<Rightarrow> int list \<Rightarrow> pgs" where
  "lookups p indices = foldl (\<lambda>q index. snd (getSubtitleAtIndex q index)) p indices"

definition outcomes :: "pgs \<Rightarrow> int list \<Rightarrow> (int, subtitle_data option) js_map" where
  "outcomes p indices = map (\<lambda>i. (i, projr (computeSubtitleAtIndex p i))) indices"


section \<open>Example streams\<close>

definition ex_window :: "nat \<Rightarrow> window_definition" where
  "ex_window n = \<lparr>w_id = n, w_horizontalPosition = 0, w_verticalPosition = 0,
                  w_width = 1, w_height = 1\<rparr>"

definition ex_palette :: palette_definition_segment where
  "ex_palette = \<lparr>p_id = 0, rgba = [0, 0xFF0000FF]\<rparr>"

definition ex_object :: object_definition_segment where
  "ex_object = \<lparr>o_id = 0, isFirstInSequence = True, o_width = 1, o_height = 1,
                 o_data = Some [1]\<rparr>"

definition ex_composition_object :: composition_object where
  "ex_composition_object =
     \<lparr>co_id = 0, windowId = 0, co_horizontalPosition = 0, co_verticalPosition = 0,
      hasCropping = False, croppingHorizontalPosition = 0, croppingVerticalPosition = 0,
      croppingWidth = 0, croppingHeight = 0\<rparr>"

definition ex_composition :: "nat \<Rightarrow> presentation_composition_segment" where
  "ex_composition state =
     \<lparr>pc_width = 1, pc_height = 1, paletteId = 0, compositionState = state,
      compositionObjects = [ex_composition_object]\<rparr>"

text \<open>An epoch start that defines a palette, a window and an object, and shows the object.\<close>

definition ex_epoch_start :: "nat \<Rightarrow> display_set" where
  "ex_epoch_start ts =
     \<lparr>presentationTimestamp = ts, presentationComposition = Some (ex_composition 0x80),
      paletteDefinitions = [ex_palette], objectDefinitions = [ex_object],
      windowDefinitions = [\<lparr>windows = [ex_window 0]\<rparr>]\<rparr>"

text \<open>A display set with no composition and no definitions.\<close>

definition ex_bare :: "nat \<Rightarrow> display_set" where
  "ex_bare ts =
     \<lparr>presentationTimestamp = ts, presentationComposition = None,
      paletteDefinitions = [], objectDefinitions = [], windowDefinitions = []\<rparr>"

text \<open>A normal update that defines nothing itself and shows the object of its epoch.\<close>

definition ex_normal :: "nat \<Rightarrow> display_set" where
  "ex_normal ts =
     \<lparr>presentationTimestamp = ts, presentationComposition = Some (ex_composition 0),
      paletteDefinitions = [], objectDefinitions = [], windowDefinitions = []\<rparr>"

text \<open>An epoch start with two window definition segments.\<close>

definition ex_two_segments :: display_set where
  "ex_two_segments =
     \<lparr>presentationTimestamp = 90000, presentationComposition = Some (ex_composition 0x80),
      paletteDefinitions = [], objectDefinitions = [],
      windowDefinitions = [\<lparr>windows = [ex_window 1]\<rparr>, \<lparr>windows = [ex_window 2]\<rparr>]\<rparr>"

definition ex_subtitle :: subtitle_data where
  "ex_subtitle =
     \<lparr>sd_width = 1, sd_height = 1,
      sd_compositionData =
        [\<lparr>scd_compositionObject = ex_composition_object, scd_window = ex_window 0,
          scd_pixelData = \<lparr>img_width = 1, img_height = 1, img_data = [0xFF0000FF]\<rparr>\<rparr>]\<rparr>"

definition ex_pgs :: pgs where
  "ex_pgs = \<lparr>displaySets = [ex_epoch_start 90000], updateTimestamps = [90000],
             subtitleCache = new_SubtitleCache 8\<rparr>"


text \<open>A stream of two display sets, the second of which shows a subtitle.\<close>

definition ex_pgs2 :: pgs where
  "ex_pgs2 = \<lparr>displaySets = [ex_bare 90000, ex_epoch_start 180000],
              updateTimestamps = [90000, 180000],
              subtitleCache = new_SubtitleCache 8\<rparr>"

text \<open>A stream of three display sets: an epoch start, a normal update that shows the object
  of the epoch, and a display set with no composition.\<close>

definition ex_pgs3 :: pgs where
  "ex_pgs3 = \<lparr>displaySets = [ex_epoch_start 90000, ex_normal 180000, ex_bare 270000],
              updateTimestamps = [90000, 180000, 270000],
              subtitleCache = new_SubtitleCache 8\<rparr>"



section \<open>Properties of the fill loops and of the image buffer\<close>

lemma length_store [simp]: "length (store t i v) = length t"
  by (simp add: store_def)

lemma nth_store: "k < length t \<Longrightarrow> store t i v ! k = (if k = i then to_u32 v else t ! k)"
  by (simp add: store_def)

lemma length_u32_fill [simp]: "length (u32_fill t v s e) = length t"
  by (auto simp: u32_fill_def Let_def min_def max_def)

lemma nth_u32_fill:
  "k < length t \<Longrightarrow> u32_fill t v s e ! k = (if s \<le> k \<and> k < e then to_u32 v else t ! k)"
  by (auto simp: u32_fill_def Let_def nth_append min_def max_def)

lemma u32_fill_empty: "e \<le> s \<Longrightarrow> u32_fill t v s e = t"
  by (rule nth_equalityI) (auto simp: nth_u32_fill)

lemma u32_fill_store: "i < e \<Longrightarrow> u32_fill (store t i v) v (Suc i) e = u32_fill t v i e"
  by (rule nth_equalityI) (auto simp: nth_u32_fill nth_store)

lemma fill1_eq: "fill1 t v i e = (u32_fill t v i e, max i e)"
proof (induction t v i e rule: fill1.induct)
  case (1 target v idx end')
  show ?case
  proof (cases "idx < end'")
    case True
    with "1.IH" show ?thesis
      by (subst fill1.simps) (simp add: u32_fill_store max_def)
  next
    case False
    then show ?thesis
      by (subst fill1.simps) (simp add: u32_fill_empty max_def)
  qed
qed

lemma fill4_fill1:
  "(case fill4 t v i e of (t1, i1) \<Rightarrow> fill1 t1 v i1 e) = fill1 t v i e"
proof (induction t v i e rule: fill4.induct)
  case (1 target v idx end')
  show ?case
  proof (cases "idx + 4 \<le> end'")
    case True
    have "fill1 target v idx end' =
       fill1 (store (store (store (store target idx v) (idx + 1) v) (idx + 2) v) (idx + 3) v) v (idx + 4) end'"
    proof -
      have "u32_fill target v idx end' =
        u32_fill (store (store (store (store target idx v) (idx + 1) v) (idx + 2) v) (idx + 3) v) v (idx + 4) end'"
        using True by (intro nth_equalityI) (auto simp: nth_u32_fill nth_store)
      with True show ?thesis by (simp add: fill1_eq max_def)
    qed
    with True "1.IH" show ?thesis
      by (subst fill4.simps) simp
  next
    case False
    then show ?thesis by (subst fill4.simps) simp
  qed
qed

lemma fill_unrolled_eq: "fill_unrolled t v i n = (u32_fill t v i (i + n), i + n)"
  using fill4_fill1 [where t = t and v = v and i = i and e = "i + n"] by (simp add: fill_unrolled_def Let_def fill1_eq)


lemma length_written [simp]: "length (written t i ps) = length t"
  by (auto simp: written_def)

lemma nth_written:
  "k < length t \<Longrightarrow>
   written t i ps ! k = (if i \<le> k \<and> k < i + length ps then ps ! (k - i) else t ! k)"
  by (auto simp: written_def nth_append min_def)

lemma written_Nil [simp]: "written t i [] = t"
  by (rule nth_equalityI) (auto simp: nth_written)

lemma store_written: "store t i v = written t i [to_u32 v]"
  by (rule nth_equalityI) (auto simp: nth_written nth_store)

lemma u32_fill_written: "u32_fill t v i (i + n) = written t i (replicate n (to_u32 v))"
  by (rule nth_equalityI) (auto simp: nth_written nth_u32_fill)

lemma written_written:
  "written (written t i ps) (i + length ps) qs = written t i (ps @ qs)"
  by (rule nth_equalityI) (auto simp: nth_written nth_append)

lemma rle_spec_whole: "rle_spec palette bs = Some px \<Longrightarrow> whole_instructions bs"
  by (induction palette bs arbitrary: px rule: rle_spec.induct)
     (auto simp: Let_def split: if_splits list.splits)




section \<open>Properties of the CombinedBinaryReader\<close>

lemma advance_remaining:
  "cinv c \<Longrightarrow>
   cinv (advance c) \<and> remaining (advance c) = remaining c \<and>
   (remaining c \<noteq> [] \<longrightarrow>
      subReaderIndex (advance c) < length (subReaders c) \<and>
      ar_position (subReaders c ! subReaderIndex (advance c))
        < length (ar_array (subReaders c ! subReaderIndex (advance c)))) \<and>
   (remaining c = [] \<longrightarrow> currentSubReader (advance c) = None)"
proof (induction c rule: advance.induct)
  case (1 c)
  let ?k = "subReaderIndex c"
  show ?case
  proof (cases "?k < length (subReaders c)")
    case False
    with "1.prems" have cur: "currentSubReader c = None" by (simp add: cinv_def)
    then have adv: "advance c = c" by (subst advance.simps) simp
    from False have "remaining c = []" by (simp add: remaining_def)
    with adv cur "1.prems" show ?thesis by simp
  next
    case True
    with "1.prems" have cur: "currentSubReader c = Some ?k" by (simp add: cinv_def)
    from True "1.prems" have len: "ar_length (subReaders c ! ?k) = length (ar_array (subReaders c ! ?k))"
      by (simp add: cinv_def)
    have rem: "remaining c = unread (subReaders c ! ?k)
        @ concat (map unread (drop (Suc ?k) (subReaders c)))"
      using True by (simp add: remaining_def Cons_nth_drop_Suc [symmetric])
    show ?thesis
    proof (cases "ar_position (subReaders c ! ?k) \<ge> ar_length (subReaders c ! ?k)")
      case ex: True
      let ?c' = "c\<lparr>subReaderIndex := ?k + 1,
                     currentSubReader := (if ?k + 1 < length (subReaders c)
                                          then Some (?k + 1) else None)\<rparr>"
      have adv: "advance c = advance ?c'"
        using cur ex by (subst advance.simps) simp
      have inv': "cinv ?c'" using "1.prems" by (simp add: cinv_def)
      have rem': "remaining ?c' = remaining c"
        using ex len rem by (simp add: remaining_def unread_def)
      from "1.IH" [OF cur ex inv'] adv rem' show ?thesis by simp
    next
      case nex: False
      then have adv: "advance c = c" using cur by (subst advance.simps) simp
      from nex len have "unread (subReaders c ! ?k) \<noteq> []" by (simp add: unread_def)
      with rem have "remaining c \<noteq> []" by simp
      with adv "1.prems" True nex len show ?thesis by simp
    qed
  qed
qed

lemma c_readByte_Cons:
  assumes inv: "cinv c" and rem: "remaining c = b # rest"
  shows "\<exists>c'. c_readByte c = Inr (Some b, c') \<and> cinv c' \<and> remaining c' = rest \<and>
           c_position c' = c_position c + 1 \<and> c_length c' = c_length c"
proof -
  let ?a = "advance c"
  let ?k = "subReaderIndex ?a"
  let ?r = "subReaders c ! ?k"
  from advance_remaining [OF inv] rem have
    inv_a: "cinv ?a" and rem_a: "remaining ?a = b # rest" and
    k: "?k < length (subReaders c)" and p: "ar_position ?r < length (ar_array ?r)"
    by simp_all
  have subs: "subReaders ?a = subReaders c" by (simp add: advance_fields)
  from inv_a k subs have cur: "currentSubReader ?a = Some ?k" by (simp add: cinv_def)
  have split: "remaining ?a = unread ?r @ concat (map unread (drop (Suc ?k) (subReaders c)))"
    using k subs by (simp add: remaining_def Cons_nth_drop_Suc [symmetric])
  from p have un: "unread ?r = ar_array ?r ! ar_position ?r # drop (Suc (ar_position ?r)) (ar_array ?r)"
    by (simp add: unread_def Cons_nth_drop_Suc)
  from split un rem_a have b: "ar_array ?r ! ar_position ?r = b"
    and rest: "rest = drop (Suc (ar_position ?r)) (ar_array ?r)
        @ concat (map unread (drop (Suc ?k) (subReaders c)))"
    by simp_all
  let ?r' = "?r\<lparr>ar_position := ar_position ?r + 1\<rparr>"
  let ?c' = "?a\<lparr>c_position := c_position ?a + 1, subReaders := (subReaders c)[?k := ?r']\<rparr>"
  have read: "c_readByte c = Inr (Some b, ?c')"
    using cur subs p b by (simp add: c_readByte_def Let_def ar_readByte_def data_at_def)
  have inv': "cinv ?c'"
  proof -
    have "\<forall>r \<in> set ((subReaders c)[?k := ?r']). ar_length r = length (ar_array r)"
    proof
      fix r assume "r \<in> set ((subReaders c)[?k := ?r'])"
      then have "r = ?r' \<or> r \<in> set (subReaders c)"
        using set_update_subset_insert [of "subReaders c" ?k ?r'] by auto
      moreover have "ar_length ?r = length (ar_array ?r)"
        using inv k by (simp add: cinv_def)
      ultimately show "ar_length r = length (ar_array r)"
        using inv by (auto simp: cinv_def)
    qed
    with inv_a subs show ?thesis by (simp add: cinv_def)
  qed
  have rem': "remaining ?c' = rest"
  proof -
    have "drop ?k ((subReaders c)[?k := ?r']) = ?r' # drop (Suc ?k) (subReaders c)"
      using k by (simp add: Cons_nth_drop_Suc [symmetric])
    then show ?thesis by (simp add: remaining_def rest unread_def)
  qed
  from read inv' rem' show ?thesis by (simp add: advance_fields)
qed

lemma c_readByte_Nil:
  assumes inv: "cinv c" and rem: "remaining c = []"
  shows "c_readByte c = Inl TypeError"
  using advance_remaining [OF inv] rem by (simp add: c_readByte_def Let_def)


section \<open>The decoders follow the instructions\<close>

lemma instruction_pos: "0 < snd (instruction data source pos)"
  by (simp add: instruction_def Let_def)

lemma decodeFast_body_instruction:
  "decodeFast_body data source (t, i, pos) =
     (case instruction data source pos of
        (ps, n) \<Rightarrow> (written t i ps, i + length ps, pos + n))"
  by (simp add: instruction_def Let_def fill_unrolled_eq u32_fill_written store_written
        numeral_3_eq_3)

lemma read_ok:
  assumes "reads r data pos" and "is_array r \<or> pos < length data"
  shows "\<exists>r'. reader_readByte r = Inr (data_at data pos, r') \<and> reads r' data (pos + 1)
            \<and> is_array r' = is_array r"
proof (cases r)
  case (ArrayReader a)
  with assms show ?thesis by (simp add: ar_readByte_def)
next
  case (CombinedReader c)
  with assms have lt: "pos < length data" and inv: "cinv c"
    and rem: "remaining c = data ! pos # drop (Suc pos) data"
    by (simp_all add: Cons_nth_drop_Suc)
  from c_readByte_Cons [OF inv rem] obtain c' where
    "c_readByte c = Inr (Some (data ! pos), c')" "cinv c'" "remaining c' = drop (Suc pos) data"
    "c_position c' = c_position c + 1" "c_length c' = c_length c"
    by blast
  with CombinedReader assms lt show ?thesis by (simp add: data_at_def)
qed

lemma read_fail:
  assumes "reads r data pos" and "\<not> is_array r" and "length data \<le> pos"
  shows "reader_readByte r = Inl TypeError"
proof (cases r)
  case (ArrayReader a)
  with assms show ?thesis by simp
next
  case (CombinedReader c)
  with assms have "cinv c" "remaining c = []" by simp_all
  then have "c_readByte c = Inl TypeError" by (rule c_readByte_Nil)
  with CombinedReader show ?thesis by simp
qed


lemma read_run_length_ok:
  assumes "reads r data p" and "is_array r \<or> (bit7 byte2 \<noteq> 0 \<longrightarrow> p < length data)"
  shows "\<exists>r'. read_run_length r byte2 =
             Inr (if bit7 byte2 \<noteq> 0 then num14 (num6 byte2) (data_at data p) else num6 byte2, r')
          \<and> reads r' data (p + (if bit7 byte2 \<noteq> 0 then 1 else 0))
          \<and> is_array r' = is_array r"
proof (cases "bit7 byte2 \<noteq> 0")
  case True
  with assms(2) have "is_array r \<or> p < length data" by blast
  from read_ok [OF assms(1) this] True show ?thesis
    by (auto simp: read_run_length_def)
next
  case False
  with assms(1) show ?thesis by (simp add: read_run_length_def)
qed

lemma read_run_value_ok:
  assumes "reads r data p" and "is_array r \<or> (bit8 byte2 \<noteq> 0 \<longrightarrow> p < length data)"
  shows "\<exists>r'. read_run_value source r byte2 =
             Inr (if bit8 byte2 \<noteq> 0 then source_at source (data_at data p)
                  else source_at source (Some 0), r')
          \<and> reads r' data (p + (if bit8 byte2 \<noteq> 0 then 1 else 0))
          \<and> is_array r' = is_array r"
proof (cases "bit8 byte2 \<noteq> 0")
  case True
  with assms(2) have "is_array r \<or> p < length data" by blast
  from read_ok [OF assms(1) this] True show ?thesis
    by (auto simp: read_run_value_def)
next
  case False
  with assms(1) show ?thesis by (simp add: read_run_value_def)
qed

lemma decode_body_instruction:
  assumes rd: "reads r data pos" and lt: "pos < length data"
    and ok: "is_array r \<or> pos + snd (instruction data source pos) \<le> length data"
  shows "\<exists>r'. decode_body source (r, t, i) =
             Inr (r', written t i (fst (instruction data source pos)),
                  i + length (fst (instruction data source pos)))
          \<and> reads r' data (pos + snd (instruction data source pos))
          \<and> is_array r' = is_array r"
proof -
  from read_ok [OF rd] lt obtain r1 where
    r1: "reader_readByte r = Inr (data_at data pos, r1)" "reads r1 data (pos + 1)"
        "is_array r1 = is_array r"
    by blast
  show ?thesis
  proof (cases "data_at data pos \<noteq> Some 0")
    case True
    with r1 show ?thesis by (simp add: instruction_def store_written)
  next
    case b1: False
    have "is_array r1 \<or> pos + 1 < length data"
      using ok b1 r1(3) by (auto simp: instruction_def Let_def split: if_splits)
    from read_ok [OF r1(2) this] obtain r2 where
      r2: "reader_readByte r1 = Inr (data_at data (pos + 1), r2)" "reads r2 data (pos + 1 + 1)"
          "is_array r2 = is_array r1"
      by blast
    let ?byte2 = "data_at data (pos + 1)"
    show ?thesis
    proof (cases "?byte2 = Some 0")
      case True
      with b1 r1 r2 show ?thesis by (simp add: instruction_def)
    next
      case b2: False
      let ?ext = "if bit7 ?byte2 \<noteq> 0 then 1 else 0 :: nat"
      have "is_array r2 \<or> (bit7 ?byte2 \<noteq> 0 \<longrightarrow> pos + 1 + 1 < length data)"
        using ok b1 b2 r1(3) r2(3) by (auto simp: instruction_def Let_def split: if_splits)
      from read_run_length_ok [OF r2(2) this] obtain r3 where
        r3: "read_run_length r2 ?byte2 =
               Inr (if bit7 ?byte2 \<noteq> 0 then num14 (num6 ?byte2) (data_at data (pos + 1 + 1))
                    else num6 ?byte2, r3)"
            "reads r3 data (pos + 1 + 1 + ?ext)" "is_array r3 = is_array r2"
        by blast
      have "is_array r3 \<or> (bit8 ?byte2 \<noteq> 0 \<longrightarrow> pos + 1 + 1 + ?ext < length data)"
        using ok b1 b2 r1(3) r2(3) r3(3) by (auto simp: instruction_def Let_def split: if_splits)
      from read_run_value_ok [OF r3(2) this] obtain r4 where
        r4: "read_run_value source r3 ?byte2 =
               Inr (if bit8 ?byte2 \<noteq> 0 then source_at source (data_at data (pos + 1 + 1 + ?ext))
                    else source_at source (Some 0), r4)"
            "reads r4 data (pos + 1 + 1 + ?ext + (if bit8 ?byte2 \<noteq> 0 then 1 else 0))"
            "is_array r4 = is_array r3"
        by blast
      have body: "decode_body source (r, t, i) = decode_run source r2 ?byte2 t i"
        using r1(1) r2(1) b1 b2 by simp
      have ins: "instruction data source pos =
          (replicate (if bit7 ?byte2 \<noteq> 0 then num14 (num6 ?byte2) (data_at data (pos + 2))
                      else num6 ?byte2)
             (to_u32 (if bit8 ?byte2 \<noteq> 0 then source_at source (data_at data (pos + 2 + ?ext))
                      else source_at source (Some 0))),
           2 + ?ext + (if bit8 ?byte2 \<noteq> 0 then 1 else 0))"
        using b1 b2 by (simp add: instruction_def Let_def)
      have two: "pos + 1 + 1 = pos + 2" by simp
      show ?thesis
        unfolding body decode_run_def r3(1) ins
        using r4 r3(3) r2(3) r1(3)
        by (simp add: two fill_unrolled_eq u32_fill_written add.assoc)
    qed
  qed
qed


lemma bits_Some:
  "bit7 (Some B2) = unat B2 AND 0x40" "bit8 (Some B2) = unat B2 AND 0x80"
  "num6 (Some B2) = unat B2 AND 0x3F"
  by (simp_all add: bit7_def bit8_def num6_def to_int32_def)

lemma append_single_fun: "(@) [x] = (#) x"
  by (rule ext) simp

lemma append_Nil_fun: "(@) [] = (\<lambda>x. x)"
  by (rule ext) simp

lemma rle_spec_unfold:
  assumes lt: "pos < length data"
  shows "rle_spec source (drop pos data) =
     (if pos + snd (instruction data source pos) \<le> length data
      then map_option ((@) (fst (instruction data source pos)))
             (rle_spec source (drop (pos + snd (instruction data source pos)) data))
      else None)"
proof -
  have d0: "drop pos data = data ! pos # drop (Suc pos) data"
    using lt by (simp add: Cons_nth_drop_Suc)
  have at0: "data_at data pos = Some (data ! pos)" using lt by (simp add: data_at_def)
  show ?thesis
  proof (cases "data ! pos \<noteq> 0")
    case True
    with d0 at0 lt show ?thesis
      by (simp add: instruction_def palette_entry_def Suc_le_eq append_single_fun)
  next
    case b1: False
    show ?thesis
    proof (cases "Suc pos < length data")
      case False
      then have "drop (Suc pos) data = []" by simp
      moreover from False have "data_at data (pos + 1) = None" by (simp add: data_at_def)
      ultimately show ?thesis using d0 at0 b1 False
        by (simp add: instruction_def Let_def bit7_def bit8_def to_int32_def)
    next
      case lt1: True
      have d1: "drop (Suc pos) data = data ! Suc pos # drop (pos + 2) data"
        using lt1 by (simp add: Cons_nth_drop_Suc)
      have at1: "data_at data (pos + 1) = Some (data ! Suc pos)"
        using lt1 by (simp add: data_at_def)
      show ?thesis
      proof (cases "data ! Suc pos = 0")
        case True
        with d0 d1 at0 at1 b1 lt1 show ?thesis
          by (simp add: instruction_def Let_def Suc_le_eq append_Nil_fun option.map_ident)
      next
        case b2: False
        let ?B2 = "data ! Suc pos"
        let ?n = "run_extra ?B2"
        have n: "snd (instruction data source pos) = 2 + ?n"
          using at0 at1 b1 b2 by (simp add: instruction_def Let_def bits_Some run_extra_def)
        show ?thesis
        proof (cases "length (drop (pos + 2) data) < ?n")
          case True
          with d0 d1 b1 b2 n show ?thesis by simp
        next
          case False
          with lt1 have le: "pos + 2 + ?n \<le> length data" by simp
          have nth0: "unat ?B2 AND 0x40 \<noteq> 0 \<Longrightarrow> data_at data (pos + 2) = Some (drop (pos + 2) data ! 0)"
            using le by (simp add: data_at_def run_extra_def)
          have nth1: "unat ?B2 AND 0x80 \<noteq> 0 \<Longrightarrow>
             data_at data (pos + 2 + (if unat ?B2 AND 0x40 \<noteq> 0 then 1 else 0))
               = Some (drop (pos + 2) data ! (if unat ?B2 AND 0x40 \<noteq> 0 then 1 else 0))"
            using le by (simp add: data_at_def run_extra_def)
          have ps: "fst (instruction data source pos) =
             replicate (if unat ?B2 AND 0x40 \<noteq> 0
                        then push_bit 8 (unat ?B2 AND 0x3F) OR unat (drop (pos + 2) data ! 0)
                        else unat ?B2 AND 0x3F)
               (if unat ?B2 AND 0x80 \<noteq> 0
                then palette_entry source
                       (drop (pos + 2) data ! (if unat ?B2 AND 0x40 \<noteq> 0 then 1 else 0))
                else palette_entry source 0)"
            using at0 at1 b1 b2 nth0 nth1
            by (cases "unat ?B2 AND 0x40 = 0"; cases "unat ?B2 AND 0x80 = 0")
               (simp_all add: instruction_def Let_def bits_Some num14_def to_int32_def
                     palette_entry_def)
          have "rle_spec source (drop pos data) =
             map_option ((@) (fst (instruction data source pos)))
               (rle_spec source (drop ?n (drop (pos + 2) data)))"
            using d0 d1 b1 b2 False unfolding ps by (simp add: Let_def)
          with le n show ?thesis by (simp add: add.commute add.left_commute)
        qed
      qed
    qed
  qed
qed


lemma whole_instructions_iff: "whole_instructions bs \<longleftrightarrow> rle_spec source bs \<noteq> None"
  by (induction source bs rule: rle_spec.induct) (auto simp: Let_def split: list.splits)

lemma whole_instructions_unfold:
  assumes "pos < length data"
  shows "whole_instructions (drop pos data) \<longleftrightarrow>
     pos + snd (instruction data source pos) \<le> length data \<and>
     whole_instructions (drop (pos + snd (instruction data source pos)) data)"
  unfolding whole_instructions_iff [where source = source] rle_spec_unfold [OF assms, of source]
  by simp

lemma decodeFast_loop_spec:
  "rle_spec source (drop pos data) = Some px \<Longrightarrow>
   decodeFast_loop data source (t, i, pos) = (i + length px, written t i px)"
proof (induction "length data - pos" arbitrary: pos t i px rule: less_induct)
  case less
  show ?case
  proof (cases "pos < length data")
    case False
    with less.prems show ?thesis by (subst decodeFast_loop.simps) simp
  next
    case True
    let ?ps = "fst (instruction data source pos)"
    let ?n = "snd (instruction data source pos)"
    from less.prems rle_spec_unfold [OF True, of source] obtain px' where
      le: "pos + ?n \<le> length data" and
      px': "rle_spec source (drop (pos + ?n) data) = Some px'" and px: "px = ?ps @ px'"
      by (auto split: if_splits)
    have "0 < ?n" by (rule instruction_pos)
    with True have "length data - (pos + ?n) < length data - pos" by simp
    from less.hyps [OF this px']
    have "decodeFast_loop data source (written t i ?ps, i + length ?ps, pos + ?n) =
        (i + length ?ps + length px', written (written t i ?ps) (i + length ?ps) px')" .
    with True px show ?thesis
      by (subst decodeFast_loop.simps)
         (simp add: decodeFast_body_instruction split_beta written_written add.assoc
               del: decodeFast_body.simps)
  qed
qed

lemma decode_loop_sim:
  "reads r data pos \<Longrightarrow> is_array r \<or> whole_instructions (drop pos data) \<Longrightarrow>
   decode_loop source (length data) (r, t, i) = Inr (decodeFast_loop data source (t, i, pos))"
proof (induction "length data - pos" arbitrary: pos r t i rule: less_induct)
  case less
  have rp: "reader_position r = pos" using less.prems(1) by (cases r) simp_all
  show ?case
  proof (cases "pos < length data")
    case False
    with rp show ?thesis
      by (subst decode_loop.simps, subst decodeFast_loop.simps) simp
  next
    case True
    let ?ps = "fst (instruction data source pos)"
    let ?n = "snd (instruction data source pos)"
    have ok: "is_array r \<or> pos + ?n \<le> length data"
      using less.prems(2) whole_instructions_unfold [OF True, of source] by blast
    from decode_body_instruction [OF less.prems(1) True ok, of t i] obtain r' where
      body: "decode_body source (r, t, i) = Inr (r', written t i ?ps, i + length ?ps)"
      and rd': "reads r' data (pos + ?n)" and arr: "is_array r' = is_array r"
      by blast
    have ok': "is_array r' \<or> whole_instructions (drop (pos + ?n) data)"
      using less.prems(2) arr whole_instructions_unfold [OF True, of source] by blast
    have "0 < ?n" by (rule instruction_pos)
    with True have "length data - (pos + ?n) < length data - pos" by simp
    from less.hyps [OF this rd' ok']
    have "decode_loop source (length data) (r', written t i ?ps, i + length ?ps) =
        Inr (decodeFast_loop data source (written t i ?ps, i + length ?ps, pos + ?n))" .
    with True rp body show ?thesis
      by (subst decode_loop.simps, subst decodeFast_loop.simps)
         (simp add: decodeFast_body_instruction split_beta
               del: decodeFast_body.simps decode_body.simps)
  qed
qed


lemma decode_run_truncated:
  assumes rd: "reads r2 data p" and na: "\<not> is_array r2"
    and short: "length data < p + (if bit7 byte2 \<noteq> 0 then 1 else 0)
                                + (if bit8 byte2 \<noteq> 0 then 1 else 0)"
  shows "decode_run source r2 byte2 t i = Inl TypeError"
proof (cases "bit7 byte2 \<noteq> 0 \<and> length data \<le> p")
  case True
  with read_fail [OF rd na] show ?thesis
    by (simp add: decode_run_def read_run_length_def)
next
  case False
  then have "is_array r2 \<or> (bit7 byte2 \<noteq> 0 \<longrightarrow> p < length data)" by auto
  from read_run_length_ok [OF rd this] obtain r3 num where
    r3: "read_run_length r2 byte2 = Inr (num, r3)"
        "reads r3 data (p + (if bit7 byte2 \<noteq> 0 then 1 else 0))" "is_array r3 = is_array r2"
    by blast
  from rd na have "p \<le> length data" by (cases r2) simp_all
  with short False have b8: "bit8 byte2 \<noteq> 0"
    and le: "length data \<le> p + (if bit7 byte2 \<noteq> 0 then 1 else 0)"
    by (auto split: if_splits)
  from r3(3) na have "\<not> is_array r3" by simp
  from read_fail [OF r3(2) this le] b8 r3(1) show ?thesis
    by (simp add: decode_run_def read_run_value_def)
qed

lemma decode_body_truncated:
  assumes rd: "reads r data pos" and na: "\<not> is_array r" and lt: "pos < length data"
    and short: "length data < pos + snd (instruction data source pos)"
  shows "decode_body source (r, t, i) = Inl TypeError"
proof -
  from read_ok [OF rd] lt obtain r1 where
    r1: "reader_readByte r = Inr (data_at data pos, r1)" "reads r1 data (pos + 1)"
        "is_array r1 = is_array r"
    by blast
  from short lt have b1: "data_at data pos = Some 0"
    by (auto simp: instruction_def Let_def split: if_splits)
  from r1(3) na have na1: "\<not> is_array r1" by simp
  show ?thesis
  proof (cases "pos + 1 < length data")
    case False
    then have "length data \<le> pos + 1" by simp
    from read_fail [OF r1(2) na1 this] r1(1) b1 show ?thesis by simp
  next
    case True
    then have "is_array r1 \<or> pos + 1 < length data" by simp
    from read_ok [OF r1(2) this] obtain r2 where
      r2: "reader_readByte r1 = Inr (data_at data (pos + 1), r2)" "reads r2 data (pos + 1 + 1)"
          "is_array r2 = is_array r1"
      by blast
    let ?byte2 = "data_at data (pos + 1)"
    from short b1 True have b2: "?byte2 \<noteq> Some 0"
      by (auto simp: instruction_def Let_def split: if_splits)
    from r2(3) na1 have na2: "\<not> is_array r2" by simp
    have "length data < pos + 1 + 1 + (if bit7 ?byte2 \<noteq> 0 then 1 else 0)
                                + (if bit8 ?byte2 \<noteq> 0 then 1 else 0)"
      using short b1 b2 by (simp add: instruction_def Let_def)
    from decode_run_truncated [OF r2(2) na2 this] r1(1) r2(1) b1 b2
    show ?thesis by simp
  qed
qed

lemma decode_loop_cut:
  "reads r data pos \<Longrightarrow> \<not> is_array r \<Longrightarrow> \<not> whole_instructions (drop pos data) \<Longrightarrow>
   decode_loop source (length data) (r, t, i) = Inl TypeError"
proof (induction "length data - pos" arbitrary: pos r t i rule: less_induct)
  case less
  have rp: "reader_position r = pos" using less.prems(1) by (cases r) simp_all
  have lt: "pos < length data"
  proof (rule ccontr)
    assume "\<not> pos < length data"
    then have "drop pos data = []" by simp
    with less.prems(3) show False by simp
  qed
  let ?ps = "fst (instruction data source pos)"
  let ?n = "snd (instruction data source pos)"
  show ?case
  proof (cases "pos + ?n \<le> length data")
    case False
    then have "length data < pos + ?n" by simp
    from decode_body_truncated [OF less.prems(1,2) lt this] rp lt show ?thesis
      by (subst decode_loop.simps) (simp del: decode_body.simps)
  next
    case True
    then have ok: "is_array r \<or> pos + ?n \<le> length data" by simp
    from decode_body_instruction [OF less.prems(1) lt ok, of t i] obtain r' where
      body: "decode_body source (r, t, i) = Inr (r', written t i ?ps, i + length ?ps)"
      and rd': "reads r' data (pos + ?n)" and arr: "is_array r' = is_array r"
      by blast
    have nc: "\<not> whole_instructions (drop (pos + ?n) data)"
      using less.prems(3) True whole_instructions_unfold [OF lt, of source] by blast
    have "0 < ?n" by (rule instruction_pos)
    with lt have "length data - (pos + ?n) < length data - pos" by simp
    from less.hyps [OF this rd' _ nc] arr less.prems(2)
    have "decode_loop source (length data) (r', written t i ?ps, i + length ?ps)
        = Inl TypeError" by simp
    with lt rp body show ?thesis
      by (subst decode_loop.simps) (simp del: decode_body.simps)
  qed
qed

lemma reads_new_array: "reads (ArrayReader (new_ArrayBinaryReader data)) data 0"
  by (simp add: new_ArrayBinaryReader_def)

lemma reads_new_combined:
  "reads (CombinedReader (new_CombinedBinaryReader chunks)) (concat chunks) 0"
proof -
  have "concat (map unread (map new_ArrayBinaryReader chunks)) = concat chunks"
    by (induction chunks) (simp_all add: unread_def new_ArrayBinaryReader_def)
  moreover have "sum_list (map ar_length (map new_ArrayBinaryReader chunks))
      = length (concat chunks)"
    by (induction chunks) (simp_all add: new_ArrayBinaryReader_def)
  ultimately show ?thesis
    by (auto simp: new_CombinedBinaryReader_def Let_def cinv_def remaining_def
                   new_ArrayBinaryReader_def)
qed

lemma length_new_reader:
  "ar_length (new_ArrayBinaryReader data) = length data"
  "c_length (new_CombinedBinaryReader chunks) = length (concat chunks)"
  using reads_new_array [of data] reads_new_combined [of chunks] by simp_all


lemma decode_array_eq_fast:
  "decode (FromReader (ArrayReader (new_ArrayBinaryReader bytes))) source target
     = decode (FromArray bytes) source target"
  using decode_loop_sim [OF reads_new_array, of bytes source target 0]
  by (simp add: decodeFast_def length_new_reader)

lemma decode_combined_whole:
  "whole_instructions (concat chunks) \<Longrightarrow>
   decode (FromReader (CombinedReader (new_CombinedBinaryReader chunks))) source target
     = decode (FromArray (concat chunks)) source target"
  using decode_loop_sim [OF reads_new_combined, of chunks source target 0]
  by (simp add: decodeFast_def length_new_reader)

lemma decode_combined_cut:
  "\<not> whole_instructions (concat chunks) \<Longrightarrow>
   decode (FromReader (CombinedReader (new_CombinedBinaryReader chunks))) source target
     = Inl TypeError"
  using decode_loop_cut [OF reads_new_combined, of chunks source target 0]
  by (simp add: length_new_reader)

lemma decode_fast_spec:
  "rle_spec palette bytes = Some pixels \<Longrightarrow>
   decode (FromArray bytes) palette target = Inr (length pixels, written target 0 pixels)"
  using decodeFast_loop_spec [of palette 0 bytes pixels target 0]
  by (simp add: decodeFast_def)

lemma rle_spec_example:
  "rle_spec palette [0, 0x46, 0x20] = Some (replicate 1568 (palette_entry palette 0))"
  by (simp add: run_extra_def)


section \<open>C1: \<open>decode\<close> implements the decoding rule\<close>

text \<open>
  Claim C1, as amended. \<open>RunLengthEncoding.decode\<close> implements the left-to-right decoding
  rule of the specification on every input in which no instruction is cut off by the end
  of the input (\<open>whole_instructions\<close>). For every palette, every output buffer and every
  such byte sequence, the rule yields a pixel sequence \<open>pixels\<close>, and \<open>decode\<close> returns the
  count \<open>length pixels\<close> and leaves the buffer with these pixels written from index 0 (as
  many as the buffer holds, the rest of the buffer unchanged). This holds when the bytes
  are presented as a flat \<open>Uint8Array\<close>, through an \<open>ArrayBinaryReader\<close>, and through a
  \<open>CombinedBinaryReader\<close> over any chunking of the bytes. In particular the input
  \<open>(0, 0x46, 0x20)\<close> emits exactly 1568 pixels equal to \<open>palette[0]\<close>.
\<close>

theorem decode_implements_rule:
  "(whole_instructions bytes \<longrightarrow>
      (\<exists>pixels. rle_spec palette bytes = Some pixels \<and>
         decode (FromArray bytes) palette target
           = Inr (length pixels, written target 0 pixels) \<and>
         decode (FromReader (ArrayReader (new_ArrayBinaryReader bytes))) palette target
           = Inr (length pixels, written target 0 pixels) \<and>
         (\<forall>chunks. concat chunks = bytes \<longrightarrow>
            decode (FromReader (CombinedReader (new_CombinedBinaryReader chunks))) palette target
              = Inr (length pixels, written target 0 pixels))))
   \<and> decode (FromArray [0, 0x46, 0x20]) palette target
       = Inr (1568, written target 0 (replicate 1568 (palette_entry palette 0)))
   \<and> decode (FromReader (ArrayReader (new_ArrayBinaryReader [0, 0x46, 0x20]))) palette target
       = Inr (1568, written target 0 (replicate 1568 (palette_entry palette 0)))
   \<and> decode (FromReader (CombinedReader (new_CombinedBinaryReader [[0, 0x46, 0x20]])))
         palette target
       = Inr (1568, written target 0 (replicate 1568 (palette_entry palette 0)))"
proof -
  have general: "decode (FromArray bs) palette target = Inr (length px, written target 0 px)
      \<and> decode (FromReader (ArrayReader (new_ArrayBinaryReader bs))) palette target
          = Inr (length px, written target 0 px)
      \<and> (\<forall>chunks. concat chunks = bs \<longrightarrow>
           decode (FromReader (CombinedReader (new_CombinedBinaryReader chunks))) palette target
             = Inr (length px, written target 0 px))"
    if spec: "rle_spec palette bs = Some px" for bs px
  proof -
    from spec have c: "whole_instructions bs" by (rule rle_spec_whole)
    from spec have f: "decode (FromArray bs) palette target = Inr (length px, written target 0 px)"
      by (rule decode_fast_spec)
    show ?thesis
      using f c decode_array_eq_fast [of bs palette target]
        decode_combined_whole [of _ palette target]
      by auto
  qed
  have whole: "\<exists>px. rle_spec palette bytes = Some px" if "whole_instructions bytes"
    using that whole_instructions_iff [of bytes palette] by auto
  have "decode (FromArray [0, 0x46, 0x20]) palette target
       = Inr (1568, written target 0 (replicate 1568 (palette_entry palette 0)))
   \<and> decode (FromReader (ArrayReader (new_ArrayBinaryReader [0, 0x46, 0x20]))) palette target
       = Inr (1568, written target 0 (replicate 1568 (palette_entry palette 0)))
   \<and> decode (FromReader (CombinedReader (new_CombinedBinaryReader [[0, 0x46, 0x20]])))
         palette target
       = Inr (1568, written target 0 (replicate 1568 (palette_entry palette 0)))"
    using general [OF rle_spec_example [of palette]] by simp
  with general whole show ?thesis by blast
qed

theorem decode_implements_rule_witness:
  "whole_instructions [1, 0, 0x03] \<and>
   rle_spec [5, 9] [1, 0, 0x03] = Some [9, 5, 5, 5] \<and>
   decode (FromReader (CombinedReader (new_CombinedBinaryReader [[1, 0], [0x03]])))
      [5, 9] [0, 0, 0, 0, 0] = Inr (4, [9, 5, 5, 5, 0])"
proof -
  have w: "whole_instructions [1, 0, 0x03]"
    by (simp add: run_extra_def)
  have h: "rle_spec [5, 9] [1, 0, 0x03] = Some [9, 5, 5, 5]"
    by (simp add: run_extra_def palette_entry_def source_at_def to_u32_def)
  have c: "concat [[1, 0], [0x03 :: byte]] = [1, 0, 0x03]" by simp
  from decode_implements_rule [of "[1, 0, 0x03]" "[5, 9]" "[0, 0, 0, 0, 0]"] w h c
  show ?thesis by (auto simp: written_def)
qed

text \<open>
  The claim as stated, for every input byte sequence, fails on \<open>(0, 0x46)\<close>: \<open>0x46\<close> has
  \<open>0x40\<close> set, so the rule takes one further byte \<open>B3\<close>, and the input has none. The rule
  yields no pixel sequence there. \<open>decodeFast\<close> and the \<open>ArrayBinaryReader\<close> read the
  missing byte as \<open>undefined\<close> and emit \<open>(6 << 8) | 0 = 1536\<close> pixels of \<open>palette[0]\<close>; the
  \<open>CombinedBinaryReader\<close> is read past its end and \<open>decode\<close> throws a TypeError.
\<close>

theorem decode_rule_counterexample:
  "rle_spec [7] [0, 0x46] = None \<and>
   decode (FromArray [0, 0x46]) [7] [1, 2] = Inr (1536, [7, 7]) \<and>
   decode (FromReader (ArrayReader (new_ArrayBinaryReader [0, 0x46]))) [7] [1, 2]
     = Inr (1536, [7, 7]) \<and>
   decode (FromReader (CombinedReader (new_CombinedBinaryReader [[0, 0x46]]))) [7] [1, 2]
     = Inl TypeError"
proof -
  have r: "rle_spec [7] [0, 0x46] = None"
    by (simp add: run_extra_def)
  have f: "decode (FromArray [0, 0x46]) [7] [1, 2] = Inr (1536, [7, 7])"
    by (simp add: decodeFast_def decodeFast_loop.simps data_at_def bit7_def bit8_def num6_def
          num14_def to_int32_def source_at_def to_u32_def u32_fill_def)
  have "\<not> whole_instructions (concat [[0, 0x46 :: byte]])" by (simp add: run_extra_def)
  from decode_combined_cut [OF this, of "[7]" "[1, 2]"] r f
    decode_array_eq_fast [of "[0, 0x46]" "[7]" "[1, 2]"]
  show ?thesis by simp
qed


section \<open>C10: the three ways of presenting the input\<close>

text \<open>
  Claim C10, as amended. For every byte sequence, palette and output buffer, decoding
  through an \<open>ArrayBinaryReader\<close> and decoding the flat \<open>Uint8Array\<close> with \<open>decodeFast\<close>
  return the same pixel count and leave the same buffer. Decoding through a
  \<open>CombinedBinaryReader\<close> over any chunking of the bytes agrees with them when no
  instruction of the input is cut off by its end (\<open>whole_instructions\<close>); when the input ends inside
  an instruction, the combined reader is read past its end and \<open>decode\<close> throws a
  TypeError, where the other two read \<open>undefined\<close> and go on.
\<close>

theorem decode_paths_agree:
  "decode (FromReader (ArrayReader (new_ArrayBinaryReader bytes))) source target
     = decode (FromArray bytes) source target \<and>
   (concat chunks = bytes \<longrightarrow>
      decode (FromReader (CombinedReader (new_CombinedBinaryReader chunks))) source target
        = (if whole_instructions bytes then decode (FromArray bytes) source target else Inl TypeError))"
  using decode_array_eq_fast [of bytes source target]
    decode_combined_whole [of chunks source target]
    decode_combined_cut [of chunks source target]
  by auto

theorem decode_paths_agree_witness:
  "concat [[0, 0x46], [0x20 :: byte]] = [0, 0x46, 0x20] \<and> whole_instructions [0, 0x46, 0x20] \<and>
   decode (FromReader (CombinedReader (new_CombinedBinaryReader [[0, 0x46], [0x20]]))) [7] [1, 2]
     = Inr (1568, [7, 7]) \<and>
   decode (FromReader (ArrayReader (new_ArrayBinaryReader [0, 0x46, 0x20]))) [7] [1, 2]
     = Inr (1568, [7, 7])"
proof -
  have c: "concat [[0, 0x46], [0x20 :: byte]] = [0, 0x46, 0x20]" by simp
  have k: "whole_instructions [0, 0x46, 0x20]" by (simp add: run_extra_def)
  have f: "decode (FromArray [0, 0x46, 0x20]) [7] [1, 2] = Inr (1568, [7, 7])"
    using decode_fast_spec [OF rle_spec_example, of "[7]" "[1, 2]"]
    by (simp add: written_def palette_entry_def source_at_def to_u32_def)
  from decode_paths_agree [of "[0, 0x46, 0x20]" "[7]" "[1, 2]" "[[0, 0x46], [0x20]]"] c k f
  show ?thesis by simp
qed

text \<open>
  The claim as stated fails on the one-byte input \<open>(0)\<close>: the array reader and
  \<open>decodeFast\<close> return 0 pixels, the combined reader throws.
\<close>

theorem decode_paths_counterexample:
  "decode (FromReader (ArrayReader (new_ArrayBinaryReader [0]))) [7] [3] = Inr (0, [3]) \<and>
   decode (FromArray [0]) [7] [3] = Inr (0, [3]) \<and>
   decode (FromReader (CombinedReader (new_CombinedBinaryReader [[0]]))) [7] [3] = Inl TypeError"
proof -
  have f: "decode (FromArray [0]) [7] [3] = Inr (0, [3])"
    by (simp add: decodeFast_def decodeFast_loop.simps data_at_def bit7_def bit8_def num6_def
          to_int32_def fill_unrolled_eq u32_fill_def)
  have "\<not> whole_instructions (concat [[0 :: byte]])" by simp
  from decode_combined_cut [OF this, of "[7]" "[3]"] f
    decode_array_eq_fast [of "[0]" "[7]" "[3]"]
  show ?thesis by simp
qed


section \<open>Properties of the numbers\<close>

lemma bit_length_0: "bit_length 0 = 0"
  by (simp add: bit_length.simps)

lemma bit_length_1: "bit_length 1 = 1"
  by (simp add: bit_length.simps)

lemma bit_length_One: "bit_length (numeral Num.One) = 1"
  by (simp add: bit_length.simps)

lemma bit_length_Bit0: "bit_length (numeral (Num.Bit0 n)) = Suc (bit_length (numeral n))"
  by (subst bit_length.simps) simp

lemma bit_length_Bit1: "bit_length (numeral (Num.Bit1 n)) = Suc (bit_length (numeral n))"
  by (subst bit_length.simps) simp

lemmas number_eval = seconds_of_ticks_def pgsTime_of_def round_double_def floor_log2_def
  bit_length_0 bit_length_1 bit_length_One bit_length_Bit0 bit_length_Bit1
  round_half_even_def scaled_round_def pack_def

lemma js_le_ge: "js_le T x = js_ge x T"
  by (cases x) simp_all

lemma js_ge_mono: "js_ge x a \<Longrightarrow> b \<le> a \<Longrightarrow> js_ge x b"
  by (cases x) simp_all

lemma js_ge_not_lt: "js_ge x T \<Longrightarrow> \<not> js_lt x T"
  by (cases x) simp_all

lemma js_not_lt_ge: "x \<noteq> NaN \<Longrightarrow> \<not> js_lt x T \<Longrightarrow> js_ge x T"
  by (cases x) simp_all

lemma js_ge_not_NaN: "js_ge x T \<Longrightarrow> x \<noteq> NaN"
  by (cases x) simp_all


text \<open>The product is \<open>NaN\<close> for the query time \<open>NaN\<close> only.\<close>

lemma round_double_not_NaN: "round_double n d e \<noteq> NaN"
  by (simp add: round_double_def pack_def Let_def)

lemma pgsTime_of_NaN_iff: "pgsTime_of t = NaN \<longleftrightarrow> t = NaN"
  by (cases t) (simp_all add: pgsTime_of_def round_double_not_NaN)



text \<open>
  \<open>round_double\<close> gives a double next to the value it rounds: for a value in the range of
  the normal doubles the result is finite and differs from the value by at most the
  fraction \<open>2^-53\<close> of it (\<open>round_double_error\<close>). So the product \<open>(T / 90000) * 90000\<close>,
  rounded twice, stays below \<open>T + 1\<close> for a 32-bit tick count \<open>T\<close>.
\<close>

lemma bit_length_Suc_0: "bit_length (Suc 0) = 1"
  using bit_length_1 by simp

lemma bit_length_bounds:
  "0 < n \<Longrightarrow> 2 ^ bit_length n \<le> 2 * n \<and> n < 2 ^ bit_length n"
proof (induction n rule: bit_length.induct)
  case (1 n)
  show ?case
  proof (cases "n div 2 = 0")
    case True
    with 1(2) have "n = 1" by (simp add: div_eq_0_iff) 
    then show ?thesis by (simp add: bit_length_Suc_0)
  next
    case False
    then have pos: "0 < n div 2" by simp
    from 1(2) have ne: "n \<noteq> 0" by simp
    from 1(1) [OF ne pos] have ih: "2 ^ bit_length (n div 2) \<le> 2 * (n div 2)"
      "n div 2 < 2 ^ bit_length (n div 2)" by simp_all
    have bl: "bit_length n = Suc (bit_length (n div 2))"
      using ne by (subst bit_length.simps) simp
    have "2 * (n div 2) \<le> n" by simp
    moreover have "n \<le> 2 * (n div 2) + 1" by presburger
    ultimately show ?thesis using ih unfolding bl by simp
  qed
qed

lemma p2_nonneg: "0 \<le> k \<Longrightarrow> (2 :: real) powr (of_int k) = 2 ^ nat k"
  using powr_realpow [of "2 :: real" "nat k"] by simp

lemma p2_neg: "k < 0 \<Longrightarrow> (2 :: real) powr (of_int k) = 1 / 2 ^ nat (- k)"
  using powr_realpow [of "2 :: real" "nat (- k)"] powr_minus_divide [of "2 :: real" "of_int (- k)"]
  by simp

lemma dyadic_powr: "dyadic m e = of_int m * 2 powr (of_int e)"
  by (cases "0 \<le> e") (simp_all add: dyadic_def p2_nonneg p2_neg)

lemma bit_length_real:
  assumes "0 < n"
  shows "(2 :: real) powr (real (bit_length n)) \<le> 2 * real n"
    and "real n < 2 powr (real (bit_length n))"
proof -
  from bit_length_bounds [OF assms]
  have a: "2 ^ bit_length n \<le> 2 * n" and b: "n < 2 ^ bit_length n" by simp_all
  from a have "real (2 ^ bit_length n) \<le> real (2 * n)" by (rule of_nat_mono)
  then show "(2 :: real) powr (real (bit_length n)) \<le> 2 * real n"
    by (simp add: powr_realpow)
  from b have "real n < real (2 ^ bit_length n)" by (simp only: of_nat_less_iff)
  then show "real n < 2 powr (real (bit_length n))"
    by (simp add: powr_realpow)
qed


lemma floor_log2_bounds:
  assumes "0 < a" and "0 < d"
  shows "2 powr (of_int (floor_log2 a d)) \<le> real a / real d"
    and "real a / real d < 2 powr (of_int (floor_log2 a d + 1))"
proof -
  define g where "g = int (bit_length a) - int (bit_length d)"
  define PA :: real where "PA = 2 powr (real (bit_length a))"
  define PD :: real where "PD = 2 powr (real (bit_length d))"
  define G :: real where "G = 2 powr (of_int g)"
  have ra: "PA \<le> 2 * real a" "real a < PA"
    unfolding PA_def using bit_length_real [OF assms(1)] by simp_all
  have rd: "PD \<le> 2 * real d" "real d < PD"
    unfolding PD_def using bit_length_real [OF assms(2)] by simp_all
  have dpos: "0 < real d" and apos: "0 < real a" using assms by simp_all
  have PDpos: "0 < PD" unfolding PD_def by simp
  have Gpos: "0 < G" unfolding G_def by simp
  have G: "G = PA / PD"
    unfolding G_def g_def PA_def PD_def by (simp add: powr_diff)
  have G1: "2 powr (of_int (g + 1)) = 2 * G"
    unfolding G_def by (simp add: powr_add)
  have G2: "2 powr (of_int (g - 1)) = G / 2"
    unfolding G_def by (simp add: powr_diff)
  have up: "real a / real d < 2 * G"
  proof -
    have "real a * PD \<le> real a * (2 * real d)"
      using rd(1) apos by (simp add: mult_left_mono)
    also have "\<dots> < PA * (2 * real d)"
      using ra(2) dpos by (simp add: mult_strict_right_mono)
    finally have "real a * PD < 2 * PA * real d" by simp
    then show ?thesis unfolding G using dpos PDpos by (simp add: field_simps)
  qed
  have low: "G / 2 \<le> real a / real d"
  proof -
    have "PA * real d \<le> (2 * real a) * real d"
      using ra(1) dpos by (simp add: mult_right_mono)
    also have "\<dots> \<le> (2 * real a) * PD"
      using rd(2) apos by (simp add: mult_left_mono)
    finally have "PA * real d \<le> 2 * real a * PD" by simp
    then show ?thesis unfolding G using dpos PDpos by (simp add: field_simps)
  qed
  have test: "(if 0 \<le> g then d * 2 ^ nat g \<le> a else d \<le> a * 2 ^ nat (- g))
      \<longleftrightarrow> G \<le> real a / real d"
  proof (cases "0 \<le> g")
    case True
    have "(d * 2 ^ nat g \<le> a) = (real (d * 2 ^ nat g) \<le> real a)"
      by (simp only: of_nat_le_iff)
    also have "\<dots> = (real d * 2 ^ nat g \<le> real a)" by simp
    also have "\<dots> = (G \<le> real a / real d)"
      unfolding G_def using dpos True by (simp add: p2_nonneg field_simps)
    finally show ?thesis using True by simp
  next
    case False
    then have neg: "g < 0" by simp
    have "(d \<le> a * 2 ^ nat (- g)) = (real d \<le> real (a * 2 ^ nat (- g)))"
      by (simp only: of_nat_le_iff)
    also have "\<dots> = (real d \<le> real a * 2 ^ nat (- g))" by simp
    also have "\<dots> = (G \<le> real a / real d)"
      unfolding G_def using dpos by (simp add: p2_neg [OF neg] field_simps)
    finally show ?thesis using False by simp
  qed
  have fl: "floor_log2 a d = (if G \<le> real a / real d then g else g - 1)"
    using test unfolding floor_log2_def g_def [symmetric] by (simp add: Let_def)
  show "2 powr (of_int (floor_log2 a d)) \<le> real a / real d"
  proof (cases "G \<le> real a / real d")
    case True
    then show ?thesis unfolding fl using True by (simp add: G_def)
  next
    case False
    then have "floor_log2 a d = g - 1" using fl by simp
    then show ?thesis unfolding G2 [symmetric] using low by (simp only: G2)
  qed
  show "real a / real d < 2 powr (of_int (floor_log2 a d + 1))"
  proof (cases "G \<le> real a / real d")
    case True
    then have "floor_log2 a d = g" using fl by simp
    then show ?thesis using up by (simp only: G1)
  next
    case False
    then show ?thesis unfolding fl by (simp add: G_def)
  qed
qed


lemma round_half_even_error:
  assumes "0 < den"
  shows "\<bar>real (round_half_even num den) - real num / real den\<bar> \<le> 1 / 2"
proof -
  define q where "q = num div den"
  define r where "r = num mod den"
  have "num = q * den + r" unfolding q_def r_def by simp
  then have num: "real num = real q * real den + real r"
    by (metis of_nat_add of_nat_mult)
  have r: "r < den" unfolding r_def using assms by simp
  have dpos: "0 < real den" using assms by simp
  have x: "real num / real den = real q + real r / real den"
    unfolding num using dpos by (simp add: field_simps)
  have rhe: "round_half_even num den =
      (if 2 * r < den then q else if den < 2 * r then q + 1 else if even q then q else q + 1)"
    unfolding round_half_even_def q_def r_def by (simp add: Let_def)
  consider (lt) "2 * r < den" | (gt) "den < 2 * r" | (eq) "2 * r = den" by linarith
  then show ?thesis
  proof cases
    case lt
    then have "2 * real r < real den" by (metis of_nat_less_iff of_nat_mult of_nat_numeral)
    then have "real r / real den \<le> 1 / 2" using dpos by (simp add: field_simps)
    moreover have "0 \<le> real r / real den" using dpos by simp
    ultimately show ?thesis unfolding x rhe using lt by simp
  next
    case gt
    then have "real den < 2 * real r" by (metis of_nat_less_iff of_nat_mult of_nat_numeral)
    then have "1 / 2 \<le> real r / real den" using dpos by (simp add: field_simps)
    moreover have "real r / real den \<le> 1" using r dpos by (simp add: field_simps)
    ultimately show ?thesis unfolding x rhe using gt by simp
  next
    case eq
    then have "2 * real r = real den" by (metis of_nat_mult of_nat_numeral)
    then have "real r / real den = 1 / 2" using dpos by (simp add: field_simps)
    then show ?thesis unfolding x rhe using eq by simp
  qed
qed

lemma scaled_round_error:
  assumes "0 < d"
  shows "\<bar>real (scaled_round a d sh) - real a / real d * 2 powr (of_int sh)\<bar> \<le> 1 / 2"
proof (cases "0 \<le> sh")
  case True
  have eq: "real a / real d * 2 powr (of_int sh) = real (a * 2 ^ nat sh) / real d"
    using True by (simp add: p2_nonneg)
  have sr: "scaled_round a d sh = round_half_even (a * 2 ^ nat sh) d"
    using True by (simp add: scaled_round_def)
  show ?thesis unfolding eq sr by (rule round_half_even_error [OF assms])
next
  case False
  then have neg: "sh < 0" by simp
  have pos: "0 < d * 2 ^ nat (- sh)" using assms by simp
  have eq: "real a / real d * 2 powr (of_int sh) = real a / real (d * 2 ^ nat (- sh))"
    by (simp add: p2_neg [OF neg])
  have sr: "scaled_round a d sh = round_half_even a (d * 2 ^ nat (- sh))"
    using False by (simp add: scaled_round_def)
  show ?thesis unfolding eq sr by (rule round_half_even_error [OF pos])
qed


lemma round_double_error:
  assumes n: "0 < n" and d: "0 < d"
    and v: "v = of_int n / real d * 2 powr (of_int e)"
    and lo: "2 powr (- 1022) \<le> v" and hi: "v < 2 powr 1023"
  shows "\<exists>m k. round_double n d e = Finite m k \<and> \<bar>dyadic m k - v\<bar> \<le> v * 2 powr (- 53)"
proof -
  define a where "a = nat \<bar>n\<bar>"
  define f where "f = floor_log2 a d"
  define k where "k = f + e - 52"
  define m where "m = scaled_round a d (e - k)"
  have a: "real a = of_int n" "0 < a" using n by (simp_all add: a_def)
  from floor_log2_bounds [OF a(2) d]
  have fb: "2 powr (of_int f) \<le> real a / real d" "real a / real d < 2 powr (of_int (f + 1))"
    unfolding f_def by simp_all
  have E: "0 < (2 :: real) powr (of_int e)" by simp
  have v': "v = real a / real d * 2 powr (of_int e)" using v a by simp
  have vlo: "2 powr (of_int (f + e)) \<le> v"
  proof -
    have "2 powr (of_int f) * 2 powr (of_int e) \<le> real a / real d * 2 powr (of_int e)"
      using fb(1) E by (simp only: mult_le_cancel_right_pos)
    then show ?thesis unfolding v' by (simp add: powr_add)
  qed
  have vhi: "v < 2 powr (of_int (f + e + 1))"
  proof -
    have "real a / real d * 2 powr (of_int e) < 2 powr (of_int (f + 1)) * 2 powr (of_int e)"
      using fb(2) E by (simp only: mult_less_cancel_right_pos)
    also have "\<dots> = 2 powr (of_int (f + e + 1))"
      by (simp add: powr_add [symmetric] algebra_simps)
    finally show ?thesis unfolding v' .
  qed
  have "(2 :: real) powr (- 1022) < 2 powr (of_int (f + e + 1))"
    using lo vhi by (rule le_less_trans)
  then have "- 1022 < real_of_int (f + e + 1)" by (simp only: powr_less_cancel_iff [of 2] one_less_numeral_iff semiring_norm)
  then have flo: "- 1022 \<le> f + e" by linarith
  have "(2 :: real) powr (of_int (f + e)) < 2 powr 1023"
    using vlo hi by (rule le_less_trans)
  then have "real_of_int (f + e) < 1023" by (simp only: powr_less_cancel_iff [of 2] one_less_numeral_iff semiring_norm)
  then have fhi: "f + e \<le> 1022" by linarith
  have kmax: "max (f + e - 52) (- 1074) = k" using flo by (simp add: k_def)
  have kle: "k \<le> 970" using fhi by (simp add: k_def)
  have rd: "round_double n d e = Finite (int m) k"
    using n kmax kle unfolding m_def k_def f_def a_def
    by (simp add: round_double_def Let_def pack_def)
  have K: "0 < (2 :: real) powr (of_int k)" by simp
  have split: "(2 :: real) powr (of_int (e - k)) * 2 powr (of_int k) = 2 powr (of_int e)"
    by (simp add: powr_add [symmetric])
  have "\<bar>real m - real a / real d * 2 powr (of_int (e - k))\<bar> \<le> 1 / 2"
    unfolding m_def by (rule scaled_round_error [OF d])
  then have s1: "\<bar>real m - real a / real d * 2 powr (of_int (e - k))\<bar> * 2 powr (of_int k)
      \<le> 1 / 2 * 2 powr (of_int k)"
    using K by (simp only: mult_le_cancel_right_pos)
  have s2: "\<bar>real m - real a / real d * 2 powr (of_int (e - k))\<bar> * 2 powr (of_int k)
      = \<bar>real m * 2 powr (of_int k) - v\<bar>"
  proof -
    have "\<bar>real m - real a / real d * 2 powr (of_int (e - k))\<bar> * 2 powr (of_int k)
      = \<bar>(real m - real a / real d * 2 powr (of_int (e - k))) * 2 powr (of_int k)\<bar>"
      using K by (simp add: abs_mult)
    also have "(real m - real a / real d * 2 powr (of_int (e - k))) * 2 powr (of_int k)
      = real m * 2 powr (of_int k)
        - real a / real d * (2 powr (of_int (e - k)) * 2 powr (of_int k))"
      by (simp add: algebra_simps)
    finally show ?thesis unfolding split v' .
  qed
  from s1 have err: "\<bar>real m * 2 powr (of_int k) - v\<bar> \<le> 1 / 2 * 2 powr (of_int k)"
    unfolding s2 .
  have "(2 :: real) powr (of_int k) = 2 powr (of_int (f + e)) * 2 powr (- 52)"
    unfolding k_def by (simp add: powr_add [symmetric])
  also have "\<dots> \<le> v * 2 powr (- 52)"
    using vlo by (simp only: mult_le_cancel_right_pos powr_gt_zero)
  finally have "1 / 2 * (2 :: real) powr (of_int k) \<le> 1 / 2 * (v * 2 powr (- 52))" by simp
  also have "\<dots> = v * 2 powr (- 53)"
  proof -
    have "(2 :: real) powr (- 52) = 2 * 2 powr (- 53)"
      using powr_add [of "2 :: real" 1 "- 53"] by simp
    then show ?thesis by simp
  qed
  finally have "\<bar>real m * 2 powr (of_int k) - v\<bar> \<le> v * 2 powr (- 53)"
    using err by linarith
  then have "\<bar>dyadic (int m) k - v\<bar> \<le> v * 2 powr (- 53)"
    by (simp add: dyadic_powr)
  with rd show ?thesis by blast
qed


lemma powr_numerals:
  "(2 :: real) powr (- 53) = 1 / 2 ^ 53"
  "(2 :: real) powr (- 1022) \<le> 1 / 2 ^ 17"
  "(2 :: real) ^ 34 \<le> 2 powr 1023"
proof -
  show "(2 :: real) powr (- 53) = 1 / 2 ^ 53"
    using p2_neg [of "- 53"] by simp
  have a: "1 / 2 ^ 17 = (2 :: real) powr (- 17)"
    using p2_neg [of "- 17"] by simp
  show "(2 :: real) powr (- 1022) \<le> 1 / 2 ^ 17"
    unfolding a by simp
  have b: "(2 :: real) ^ 34 = 2 powr 34"
    using p2_nonneg [of 34] by simp
  show "(2 :: real) ^ 34 \<le> 2 powr 1023"
    unfolding b by simp
qed

lemma product_below_next_tick:
  assumes T: "T < 2 ^ 32"
  shows "js_lt (pgsTime_of (seconds_of_ticks T)) (T + 1)"
proof (cases "T = 0")
  case True
  then show ?thesis by (simp add: number_eval dyadic_def)
next
  case False
  define u :: real where "u = 2 powr (- 53)"
  have u: "u = 1 / 2 ^ 53" unfolding u_def by (rule powr_numerals(1))
  have Tpos: "1 \<le> real T" using False by simp
  have Tlt: "real T < 2 ^ 32"
    using T by (metis of_nat_less_iff of_nat_numeral of_nat_power)
  define v1 where "v1 = real T / 90000"
  have v1: "v1 = of_int (int T) / real 90000 * 2 powr (of_int 0)" by (simp add: v1_def)
  have v1lo: "1 / 90000 \<le> v1" using Tpos by (simp add: v1_def)
  have v1hi: "v1 < 2 ^ 32" using Tlt by (simp add: v1_def)
  have lo1: "2 powr (- 1022) \<le> v1" using powr_numerals(2) v1lo by simp
  have hi1: "v1 < 2 powr 1023" using powr_numerals(3) v1hi by simp
  from round_double_error [OF _ _ v1 lo1 hi1] False obtain m1 k1 where
    s: "seconds_of_ticks T = Finite m1 k1" and e1: "\<bar>dyadic m1 k1 - v1\<bar> \<le> v1 * u"
    unfolding seconds_of_ticks_def u_def by auto
  define x1 where "x1 = dyadic m1 k1"
  have x1lo: "v1 * (1 - u) \<le> x1" and x1hi: "x1 \<le> v1 * (1 + u)"
    using e1 unfolding x1_def by (simp_all add: algebra_simps abs_le_iff)
  have "0 < v1 * (1 - u)" using v1lo by (simp add: u)
  with x1lo have x1pos: "0 < x1" by simp
  then have m1pos: "0 < m1"
    unfolding x1_def dyadic_powr by (simp add: zero_less_mult_iff)
  define v2 where "v2 = 90000 * x1"
  have v2: "v2 = of_int (m1 * 90000) / real 1 * 2 powr (of_int (k1 + 0))"
    unfolding v2_def x1_def dyadic_powr by simp
  have v2lo: "real T * (1 - u) \<le> v2"
    using x1lo unfolding v2_def v1_def by simp
  have v2hi: "v2 \<le> real T * (1 + u)"
    using x1hi unfolding v2_def v1_def by simp
  have "1 / 2 \<le> real T * (1 - u)"
  proof -
    have "1 * (1 - u) \<le> real T * (1 - u)"
      using Tpos by (intro mult_right_mono) (simp_all add: u)
    then show ?thesis by (simp add: u)
  qed
  with v2lo have lo2: "2 powr (- 1022) \<le> v2" using powr_numerals(2) by simp
  have "real T * (1 + u) \<le> 2 ^ 32 * (1 + u)"
    using Tlt by (intro mult_right_mono) (simp_all add: u)
  also have "\<dots> < 2 ^ 34" by (simp add: u)
  finally have hi2: "v2 < 2 powr 1023" using v2hi powr_numerals(3) by simp
  have pos2: "0 < m1 * 90000" using m1pos by simp
  have prod: "pgsTime_of (Finite m1 k1) = round_double (m1 * 90000) 1 (k1 + 0)"
    by (simp add: pgsTime_of_def)
  from round_double_error [OF pos2 _ v2 lo2 hi2] obtain m2 k2 where
    p: "pgsTime_of (Finite m1 k1) = Finite m2 k2" and e2: "\<bar>dyadic m2 k2 - v2\<bar> \<le> v2 * u"
    unfolding prod u_def by auto
  have "dyadic m2 k2 \<le> v2 * (1 + u)"
    using e2 by (simp add: algebra_simps abs_le_iff)
  also have "\<dots> \<le> (real T * (1 + u)) * (1 + u)"
    using v2hi by (intro mult_right_mono) (simp_all add: u)
  also have "\<dots> = real T + real T * (2 * u + u * u)" by (simp add: algebra_simps)
  also have "\<dots> < real T + 1"
  proof -
    have "real T * (2 * u + u * u) \<le> 2 ^ 32 * (2 * u + u * u)"
      using Tlt by (intro mult_right_mono) (simp_all add: u)
    also have "\<dots> < 1" by (simp add: u)
    finally show ?thesis by simp
  qed
  finally have "dyadic m2 k2 < real (T + 1)" by simp
  then show ?thesis unfolding s p by simp
qed

lemma js_lt_mono: "js_lt x a \<Longrightarrow> a \<le> b \<Longrightarrow> js_lt x b"
  by (cases x) simp_all

text \<open>
  The double \<open>90002 / 90000\<close> is below the quotient, and its product with 90000 is rounded
  up to 90002: with the timestamps \<open>[90001, 90002]\<close> the query at \<open>90002 / 90000\<close> is at
  the last timestamp.
\<close>

lemma rounded_product_reaches_timestamp:
  "seconds_of_ticks 90002 = Finite 4503699707362215 (- 52)"
  "pgsTime_of (seconds_of_ticks 90002) = Finite 6184890345193472 (- 36)"
  "dyadic 6184890345193472 (- 36) = 90002"
  "dyadic 4503699707362215 (- 52) * 90000 < 90002"
  "getIndexFromTimestamps (seconds_of_ticks 90002) [90001, 90002] = Some (- 1)"
proof -
  show s: "seconds_of_ticks 90002 = Finite 4503699707362215 (- 52)"
    by (simp add: number_eval)
  show p: "pgsTime_of (seconds_of_ticks 90002) = Finite 6184890345193472 (- 36)"
    unfolding s by (simp add: number_eval)
  show "dyadic 6184890345193472 (- 36) = 90002"
    by (simp add: dyadic_def)
  show "dyadic 4503699707362215 (- 52) * 90000 < 90002"
    by (simp add: dyadic_def)
  show "getIndexFromTimestamps (seconds_of_ticks 90002) [90001, 90002] = Some (- 1)"
    by (simp add: getIndexFromTimestamps_def p dyadic_def)
qed


section \<open>C3: the index of a query time\<close>

lemma search_loop_correct:
  assumes "sorted ts" and "length ts < 2 ^ 31"
    and "0 \<le> l" and "l \<le> r" and "r < int (length ts)"
    and "js_ge x (ts ! nat l)"
    and "\<forall>j. nat r < j \<and> j < length ts \<longrightarrow> \<not> js_ge x (ts ! j)"
  shows "\<exists>i. search_loop ts x l r = Some (int i) \<and> i < length ts \<and> js_ge x (ts ! i) \<and>
           (\<forall>j < length ts. js_ge x (ts ! j) \<longrightarrow> j \<le> i)"
  using assms(3-)
proof (induction "nat (r - l)" arbitrary: l r rule: less_induct)
  case less
  show ?case
  proof (cases "l < r")
    case False
    with less.prems have eq: "l = r" by simp
    have "search_loop ts x l r = Some (int (nat l))"
      using False less.prems by (subst search_loop.simps) simp
    moreover have "nat l < length ts" using less.prems by simp
    moreover have "\<forall>j < length ts. js_ge x (ts ! j) \<longrightarrow> j \<le> nat l"
      using less.prems(5) eq by (metis not_le_imp_less)
    ultimately show ?thesis using less.prems(4) by blast
  next
    case True
    let ?mid = "ushr1 (l + r + 1)"
    have small: "l + r + 1 < 2 ^ 32" using less.prems assms(2) by simp
    have mid: "?mid = (l + r + 1) div 2"
      using small less.prems by (simp add: ushr1_def)
    have bounds: "l < ?mid" "?mid \<le> r" using True mid by simp_all
    have inrange: "ts_at ts ?mid = Some (ts ! nat ?mid)"
      using bounds less.prems by (simp add: ts_at_def)
    show ?thesis
    proof (cases "js_ge x (ts ! nat ?mid)")
      case le: True
      have step: "search_loop ts x l r = search_loop ts x ?mid r"
        using True le inrange by (subst search_loop.simps) (simp add: ts_le_def js_le_ge)
      have "nat (r - ?mid) < nat (r - l)" using bounds by simp
      from less.hyps [OF this _ bounds(2) less.prems(3) le less.prems(5)] bounds less.prems(1)
      show ?thesis unfolding step by simp
    next
      case gt: False
      have step: "search_loop ts x l r = search_loop ts x l (?mid - 1)"
        using True gt inrange by (subst search_loop.simps) (simp add: ts_le_def js_le_ge)
      have above: "\<forall>j. nat (?mid - 1) < j \<and> j < length ts \<longrightarrow> \<not> js_ge x (ts ! j)"
      proof (intro allI impI)
        fix j assume j: "nat (?mid - 1) < j \<and> j < length ts"
        with bounds less.prems have "nat ?mid \<le> j" by linarith
        with assms(1) j have "ts ! nat ?mid \<le> ts ! j" by (simp add: sorted_nth_mono)
        with gt show "\<not> js_ge x (ts ! j)" using js_ge_mono by blast
      qed
      have "nat (?mid - 1 - l) < nat (r - l)" using bounds by simp
      from less.hyps [OF this less.prems(1) _ _ less.prems(4) above] bounds less.prems
      show ?thesis unfolding step by simp
    qed
  qed
qed


lemma getIndexFromTimestamps_outside:
  assumes "ts = [] \<or> js_lt (pgsTime_of t) (ts ! 0) \<or> js_ge (pgsTime_of t) (ts ! (length ts - 1))"
  shows "getIndexFromTimestamps t ts = Some (- 1)"
  using assms by (auto simp: getIndexFromTimestamps_def Let_def)


lemma getIndexFromTimestamps_inside:
  assumes "sorted ts" and "length ts < 2 ^ 31" and "pgsTime_of t \<noteq> NaN"
    and "\<not> (ts = [] \<or> js_lt (pgsTime_of t) (ts ! 0) \<or>
            js_ge (pgsTime_of t) (ts ! (length ts - 1)))"
  shows "\<exists>i. getIndexFromTimestamps t ts = Some (int i) \<and> i < length ts \<and>
           js_le (ts ! i) (pgsTime_of t) \<and>
           (\<forall>j < length ts. js_le (ts ! j) (pgsTime_of t) \<longrightarrow> j \<le> i)"
proof -
  let ?p = "pgsTime_of t"
  from assms(4) have ne: "ts \<noteq> []" and lo: "\<not> js_lt ?p (ts ! 0)"
    and hi: "\<not> js_ge ?p (ts ! (length ts - 1))" by auto
  have lo': "js_ge ?p (ts ! 0)" using assms(3) lo by (rule js_not_lt_ge)
  have run: "getIndexFromTimestamps t ts = search_loop ts ?p 0 (int (length ts) - 1)"
    using ne lo hi by (simp add: getIndexFromTimestamps_def Let_def)
  have "\<exists>i. search_loop ts ?p 0 (int (length ts) - 1) = Some (int i) \<and> i < length ts \<and>
           js_ge ?p (ts ! i) \<and> (\<forall>j < length ts. js_ge ?p (ts ! j) \<longrightarrow> j \<le> i)"
  proof (rule search_loop_correct)
    show "sorted ts" "length ts < 2 ^ 31" using assms by simp_all
    show "(0::int) \<le> 0" by simp
    show "0 \<le> int (length ts) - 1" using ne by (cases ts) simp_all
    show "int (length ts) - 1 < int (length ts)" by simp
    show "js_ge ?p (ts ! nat 0)" using lo' by simp
    show "\<forall>j. nat (int (length ts) - 1) < j \<and> j < length ts \<longrightarrow> \<not> js_ge ?p (ts ! j)"
      by auto
  qed
  with run show ?thesis by (simp add: js_le_ge)
qed





section \<open>The example streams compile as expected\<close>

lemma ex_ids:
  "p_id ex_palette = 0" "w_id (ex_window n) = n" "windowId ex_composition_object = 0"
  by (simp_all add: ex_palette_def ex_window_def ex_composition_object_def)

lemma ex_pixels:
  "getPixelDataFromComposition ex_composition_object ex_palette [ex_object]
     = Inr (Some \<lparr>img_width = 1, img_height = 1, img_data = [0xFF0000FF]\<rparr>)"
proof -
  have "rle_spec [0, 0xFF0000FF] [1] = Some [0xFF0000FF]"
    by (simp add: palette_entry_def source_at_def to_u32_def)
  from decode_fast_spec [OF this, of "[0]"]
  have "decode (FromArray (concat [[1]])) [0, 0xFF0000FF] [0] = Inr (1, [0xFF0000FF])"
    by (simp add: written_def)
  moreover have "whole_instructions (concat [[1 :: byte]])" by simp
  ultimately have "decode (FromReader (CombinedReader (new_CombinedBinaryReader [[1]])))
      [0, 0xFF0000FF] [0] = Inr (1, [0xFF0000FF])"
    using decode_combined_whole [of "[[1]]" "[0, 0xFF0000FF]" "[0]"] by simp
  then show ?thesis
    by (simp add: getPixelDataFromComposition_def gather_fragment_def ex_object_def
          ex_composition_object_def ex_palette_def)
qed

lemma ex_compute_epoch_start:
  "computeSubtitleAtIndex \<lparr>displaySets = [ex_epoch_start a], updateTimestamps = ts,
       subtitleCache = c\<rparr> 0 = Inr (Some ex_subtitle)"
  using ex_pixels
  by (simp add: computeSubtitleAtIndex_def scan.simps accumulate_def unshift_def stops_scan_def
        empty_context_def ex_epoch_start_def ex_composition_def ex_subtitle_def Let_def ex_ids)

lemma ex_pgs_compute:
  "computeSubtitleAtIndex ex_pgs i = Inr (if i = 0 then Some ex_subtitle else None)"
proof (cases "i = 0")
  case True
  then show ?thesis using ex_compute_epoch_start by (simp add: ex_pgs_def)
next
  case False
  then show ?thesis by (auto simp: computeSubtitleAtIndex_def ex_pgs_def)
qed


section \<open>What the backward scan does\<close>

text \<open>From a target index inside the list the scan returns, and it is left at the first
  visited display set that has no composition or a composition state other than 0, or
  it runs down to -1.\<close>

lemma scan_exit:
  "0 \<le> i \<Longrightarrow> nat i < length dss \<Longrightarrow>
   \<exists>ctx' k. scan dss i ctx = Inr (ctx', k) \<and> - 1 \<le> k \<and> k \<le> i \<and>
     (0 \<le> k \<longrightarrow> stops_scan (dss ! nat k)) \<and>
     (\<forall>j. k < j \<and> j \<le> i \<longrightarrow> \<not> stops_scan (dss ! nat j))"
proof (induction dss i ctx rule: scan.induct)
  case (1 dss curIndex ctx)
  show ?case
  proof (cases "stops_scan (dss ! nat curIndex)")
    case True
    with "1.prems" show ?thesis
      by (subst scan.simps) (auto simp: Let_def)
  next
    case False
    show ?thesis
    proof (cases "curIndex = 0")
      case True
      have "scan dss (- 1) (accumulate (dss ! nat curIndex) ctx)
          = Inr (accumulate (dss ! nat curIndex) ctx, - 1)"
        by (subst scan.simps) simp
      with True False "1.prems" show ?thesis
        by (subst scan.simps) (auto simp: Let_def)
    next
      case nz: False
      with "1.prems" have p: "0 \<le> curIndex - 1" "nat (curIndex - 1) < length dss" by simp_all
      from "1.IH" [OF "1.prems"(1) "1.prems"(2) refl refl False p]
      obtain ctx' k where
        k: "scan dss (curIndex - 1) (accumulate (dss ! nat curIndex) ctx) = Inr (ctx', k)"
           "- 1 \<le> k" "k \<le> curIndex - 1" "0 \<le> k \<longrightarrow> stops_scan (dss ! nat k)"
           "\<forall>j. k < j \<and> j \<le> curIndex - 1 \<longrightarrow> \<not> stops_scan (dss ! nat j)"
        by blast
      have "\<forall>j. k < j \<and> j \<le> curIndex \<longrightarrow> \<not> stops_scan (dss ! nat j)"
      proof (intro allI impI)
        fix j assume j: "k < j \<and> j \<le> curIndex"
        show "\<not> stops_scan (dss ! nat j)"
        proof (cases "j = curIndex")
          case True
          with False show ?thesis by simp
        next
          case False
          with j k(5) show ?thesis by simp
        qed
      qed
      with k False "1.prems" show ?thesis
        by (subst scan.simps) (auto simp: Let_def)
    qed
  qed
qed

text \<open>One pass puts the objects and the palettes of the display set in front, in their
  order, and the windows of its segments in front with the segments in reverse order.\<close>

lemma accumulate_prepends:
  "ctxObjects (accumulate ds ctx) = objectDefinitions ds @ ctxObjects ctx"
  "ctxPalettes (accumulate ds ctx) = paletteDefinitions ds @ ctxPalettes ctx"
  "ctxWindows (accumulate ds ctx)
     = concat (rev (map windows (windowDefinitions ds))) @ ctxWindows ctx"
proof -
  have "foldl (\<lambda>ws windowDefinition. unshift ws (windows windowDefinition)) ws0 wds
      = concat (rev (map windows wds)) @ ws0" for ws0 wds
    by (induction wds arbitrary: ws0) (simp_all add: unshift_def)
  then show "ctxWindows (accumulate ds ctx)
     = concat (rev (map windows (windowDefinitions ds))) @ ctxWindows ctx"
    by (simp add: accumulate_def)
qed (simp_all add: accumulate_def unshift_def)

section \<open>C2: where the backward scan stops\<close>

text \<open>
  Claim C2: the backward scan from the target index stops exactly at the first visited
  display set whose composition has \<open>compositionState \<noteq> Normal\<close>, or at index 0, and at no
  other visited display set. The code also stops at a visited display set that has no
  composition at all. In the stream below the epoch start at index 0 defines the palette,
  the window and the object, the display set at index 1 has no composition, and the
  target at index 2 is a normal update: the scan from 2 is left at index 1 with nothing
  accumulated, and the target compiles to nothing. With a normal update at index 1 in its
  place the scan reaches the epoch start and the target compiles to the subtitle.
\<close>

theorem scan_stops_without_composition:
  "presentationComposition (ex_bare 180000) = None \<and>
   scan [ex_epoch_start 90000, ex_bare 180000, ex_normal 270000] 2 empty_context
     = Inr (empty_context, 1) \<and>
   computeSubtitleAtIndex
     \<lparr>displaySets = [ex_epoch_start 90000, ex_bare 180000, ex_normal 270000],
      updateTimestamps = [90000, 180000, 270000], subtitleCache = new_SubtitleCache 8\<rparr> 2
     = Inr None \<and>
   computeSubtitleAtIndex
     \<lparr>displaySets = [ex_epoch_start 90000, ex_normal 180000, ex_normal 270000],
      updateTimestamps = [90000, 180000, 270000], subtitleCache = new_SubtitleCache 8\<rparr> 2
     = Inr (Some ex_subtitle)"
proof -
  have "computeSubtitleAtIndex
     \<lparr>displaySets = [ex_epoch_start 90000, ex_normal 180000, ex_normal 270000],
      updateTimestamps = [90000, 180000, 270000], subtitleCache = new_SubtitleCache 8\<rparr> 2
     = Inr (Some ex_subtitle)"
    using ex_pixels
    by (simp add: computeSubtitleAtIndex_def scan.simps accumulate_def unshift_def
          stops_scan_def empty_context_def ex_epoch_start_def ex_normal_def ex_composition_def
          ex_subtitle_def Let_def ex_ids)
  then show ?thesis
    by (simp add: computeSubtitleAtIndex_def scan.simps accumulate_def unshift_def
          stops_scan_def empty_context_def ex_normal_def ex_bare_def ex_composition_def Let_def)
qed

section \<open>C7: the order of the accumulated definitions\<close>

text \<open>
  Claim C7: each accumulator lists the included definitions in arrival order. For the
  windows of two \<open>WindowDefinitionSegment\<close>s of one display set the code does not: the
  segments are unshifted one after the other, so the windows of the later segment come
  first. In the display set below the first segment declares window 1 and the second
  window 2; the accumulator holds window 2 before window 1.
\<close>

theorem windows_of_two_segments_reversed:
  "scan [ex_two_segments] 0 empty_context
     = Inr (\<lparr>ctxObjects = [], ctxPalettes = [], ctxWindows = [ex_window 2, ex_window 1]\<rparr>, 0)"
  by (simp add: scan.simps accumulate_def unshift_def stops_scan_def empty_context_def
        ex_two_segments_def ex_composition_def)

section \<open>The cache\<close>

lemma length_js_map_delete: "length (js_map_delete m k) \<le> length m"
  by (simp add: js_map_delete_def)

lemma length_js_map_delete_has:
  "js_map_has m k \<Longrightarrow> length (js_map_delete m k) < length m"
proof -
  assume "js_map_has m k"
  then obtain e where "e \<in> set m" "fst e = k" by (auto simp: js_map_has_def)
  then show ?thesis unfolding js_map_delete_def
    by (intro length_filter_less [of e]) simp_all
qed

lemma js_map_delete_not_has: "\<not> js_map_has (js_map_delete m k) k"
  by (auto simp: js_map_has_def js_map_delete_def)

lemma js_map_delete_other:
  "\<not> js_map_has m k \<Longrightarrow> \<not> js_map_has (js_map_delete m k') k"
  by (auto simp: js_map_has_def js_map_delete_def)

lemma js_map_set_new: "\<not> js_map_has m k \<Longrightarrow> js_map_set m k v = m @ [(k, v)]"
  by (simp add: js_map_set_def)

lemma js_map_get_has: "js_map_get m k = Some v \<Longrightarrow> js_map_has m k"
  unfolding js_map_get_def js_map_has_def by (metis map_of_SomeD fst_conv image_eqI set_map)

lemma js_map_get_not_has: "\<not> js_map_has m k \<Longrightarrow> js_map_get m k = None"
  using js_map_get_has [of m k] by (cases "js_map_get m k") auto

lemma js_map_delete_first:
  "distinct (map fst m) \<Longrightarrow> m \<noteq> [] \<Longrightarrow> js_map_delete m (fst (hd m)) = tl m"
  by (cases m) (force simp: js_map_delete_def filter_id_conv)+

lemma SubtitleCache_get_hit:
  assumes "fst (SubtitleCache_get c i) = Value sd"
  shows "cache (snd (SubtitleCache_get c i)) = js_map_delete (cache c) i @ [(i, sd)]"
    and "maxSize (snd (SubtitleCache_get c i)) = maxSize c"
    and "js_map_has (cache c) i"
  using assms
  by (auto simp: SubtitleCache_get_def Let_def js_map_set_new js_map_delete_not_has
           js_map_get_has split: option.splits)

lemma SubtitleCache_get_miss:
  assumes "fst (SubtitleCache_get c i) = Null"
  shows "snd (SubtitleCache_get c i) = c"
  using assms by (auto simp: SubtitleCache_get_def Let_def split: option.splits)

lemma SubtitleCache_get_size:
  "length (cache (snd (SubtitleCache_get c i))) \<le> length (cache c) \<and>
   maxSize (snd (SubtitleCache_get c i)) = maxSize c"
proof (cases "fst (SubtitleCache_get c i)")
  case Null
  then show ?thesis by (simp add: SubtitleCache_get_miss)
next
  case (Value sd)
  from SubtitleCache_get_hit [OF Value] length_js_map_delete_has [of "cache c" i]
  show ?thesis by simp
qed

lemma SubtitleCache_set_size:
  assumes "length (cache c) \<le> maxSize c" and "0 < maxSize c"
  shows "length (cache (SubtitleCache_set c i v)) \<le> maxSize c \<and>
         maxSize (SubtitleCache_set c i v) = maxSize c"
proof (cases "js_map_has (cache c) i")
  case True
  with assms length_js_map_delete_has [of "cache c" i] show ?thesis
    by (simp add: SubtitleCache_set_def js_map_set_new js_map_delete_not_has)
next
  case nh: False
  show ?thesis
  proof (cases "length (cache c) \<ge> maxSize c")
    case False
    with nh show ?thesis by (simp add: SubtitleCache_set_def js_map_set_new)
  next
    case True
    with assms obtain e m where m: "cache c = e # m" by (cases "cache c") auto
    have "js_map_has (cache c) (fst e)" by (simp add: m js_map_has_def)
    from length_js_map_delete_has [OF this] assms True nh m show ?thesis
      by (simp add: SubtitleCache_set_def js_map_first_key_def js_map_set_new
            js_map_delete_other)
  qed
qed

lemma SubtitleCache_set_evicts:
  assumes "distinct (map fst (cache c))" and "cache c \<noteq> []"
    and "maxSize c \<le> length (cache c)" and "\<not> js_map_has (cache c) i"
  shows "cache (SubtitleCache_set c i v) = tl (cache c) @ [(i, v)]"
proof -
  from assms(2) obtain e m where m: "cache c = e # m" by (cases "cache c") auto
  have "js_map_delete (cache c) (fst e) = m"
    using js_map_delete_first [OF assms(1,2)] m by simp
  moreover have "\<not> js_map_has m i" using assms(4) m by (simp add: js_map_has_def)
  ultimately show ?thesis using assms m
    by (simp add: SubtitleCache_set_def js_map_first_key_def js_map_set_new)
qed

lemma SubtitleCache_set_appends:
  assumes "length (cache c) < maxSize c" and "\<not> js_map_has (cache c) i"
  shows "cache (SubtitleCache_set c i v) = cache c @ [(i, v)]"
  using assms by (simp add: SubtitleCache_set_def js_map_set_new)

lemma cache_ops_bounded:
  "length (cache c) \<le> maxSize c \<Longrightarrow> 0 < maxSize c \<Longrightarrow>
   length (cache (foldl apply_op c ops)) \<le> maxSize c \<and>
   maxSize (foldl apply_op c ops) = maxSize c"
proof (induction ops arbitrary: c)
  case Nil
  then show ?case by simp
next
  case (Cons op ops)
  have "length (cache (apply_op c op)) \<le> maxSize c \<and> maxSize (apply_op c op) = maxSize c"
  proof (cases op)
    case (CacheGet i)
    with SubtitleCache_get_size [of c i] Cons.prems show ?thesis by simp
  next
    case (CacheSet i v)
    with SubtitleCache_set_size [OF Cons.prems, of i v] show ?thesis by simp
  qed
  with Cons.IH [of "apply_op c op"] Cons.prems show ?case by simp
qed


lemma computeSubtitleAtIndex_cong:
  assumes "displaySets p = displaySets q"
  shows "computeSubtitleAtIndex p i = computeSubtitleAtIndex q i"
  unfolding computeSubtitleAtIndex_def assms by (rule refl)

lemma getSubtitleAtIndex_displaySets:
  "displaySets (snd (getSubtitleAtIndex p i)) = displaySets p \<and>
   updateTimestamps (snd (getSubtitleAtIndex p i)) = updateTimestamps p"
  by (simp add: getSubtitleAtIndex_def split: prod.splits lookup.splits sum.splits)

lemma SubtitleCache_get_not_has:
  "\<not> js_map_has (cache c) i \<Longrightarrow> SubtitleCache_get c i = (Null, c)"
  by (simp add: SubtitleCache_get_def js_map_get_not_has)

lemma getSubtitleAtIndex_miss:
  assumes "\<not> js_map_has (cache (subtitleCache p)) i" and "computeSubtitleAtIndex p i = Inr r"
  shows "getSubtitleAtIndex p i
     = (Inr r, p\<lparr>subtitleCache := SubtitleCache_set (subtitleCache p) i r\<rparr>)"
  using assms by (simp add: getSubtitleAtIndex_def SubtitleCache_get_not_has)

lemma lookups_snoc:
  "lookups p (indices @ [i]) = snd (getSubtitleAtIndex (lookups p indices) i)"
  by (simp add: lookups_def)

lemma js_map_has_outcomes: "js_map_has (drop n (outcomes p indices)) i \<Longrightarrow> i \<in> set indices"
  by (auto simp: js_map_has_def outcomes_def dest!: in_set_dropD)

lemma lookups_from_empty:
  assumes "cache (subtitleCache p) = []" and "maxSize (subtitleCache p) = 8"
  shows "distinct indices \<Longrightarrow> (\<forall>i \<in> set indices. \<exists>r. computeSubtitleAtIndex p i = Inr r) \<Longrightarrow>
     cache (subtitleCache (lookups p indices)) = drop (length indices - 8) (outcomes p indices) \<and>
     displaySets (lookups p indices) = displaySets p \<and>
     maxSize (subtitleCache (lookups p indices)) = 8"
proof (induction indices rule: rev_induct)
  case Nil
  with assms show ?case by (simp add: lookups_def outcomes_def)
next
  case (snoc i indices)
  let ?q = "lookups p indices"
  let ?m = "drop (length indices - 8) (outcomes p indices)"
  from snoc have IH: "cache (subtitleCache ?q) = ?m" "displaySets ?q = displaySets p"
    "maxSize (subtitleCache ?q) = 8" by simp_all
  from snoc.prems obtain r where r: "computeSubtitleAtIndex p i = Inr r" by auto
  then have rq: "computeSubtitleAtIndex ?q i = Inr r"
    using computeSubtitleAtIndex_cong [OF IH(2)] by simp
  have nh: "\<not> js_map_has (cache (subtitleCache ?q)) i"
    using snoc.prems(1) js_map_has_outcomes [of "length indices - 8" p indices i] IH(1) by auto
  have step: "lookups p (indices @ [i])
      = ?q\<lparr>subtitleCache := SubtitleCache_set (subtitleCache ?q) i r\<rparr>"
    using getSubtitleAtIndex_miss [OF nh rq] by (simp add: lookups_snoc)
  have ms: "maxSize (SubtitleCache_set (subtitleCache ?q) i r) = 8"
    using IH(3) by (simp add: SubtitleCache_set_def Let_def)
  have len: "length (outcomes p indices) = length indices" by (simp add: outcomes_def)
  have out: "outcomes p (indices @ [i]) = outcomes p indices @ [(i, r)]"
    using r by (simp add: outcomes_def)
  have "cache (SubtitleCache_set (subtitleCache ?q) i r)
      = drop (length (indices @ [i]) - 8) (outcomes p (indices @ [i]))"
  proof (cases "length indices < 8")
    case True
    then have "length (cache (subtitleCache ?q)) < maxSize (subtitleCache ?q)"
      using IH len by simp
    from SubtitleCache_set_appends [OF this nh, of r] True IH(1) out show ?thesis by simp
  next
    case False
    then have l8: "length ?m = 8" using len by simp
    have d: "distinct (map fst (cache (subtitleCache ?q)))"
    proof -
      have "map fst (outcomes p indices) = indices" by (simp add: outcomes_def comp_def)
      then have "map fst ?m = drop (length indices - 8) indices"
        unfolding drop_map [symmetric] by simp
      with snoc.prems(1) IH(1) show ?thesis by simp
    qed
    have ne: "cache (subtitleCache ?q) \<noteq> []" using l8 IH(1) by auto
    have full: "maxSize (subtitleCache ?q) \<le> length (cache (subtitleCache ?q))"
      using l8 IH by simp
    have "Suc (length indices - 8) = length (indices @ [i]) - 8" using False by simp
    then have "tl ?m = drop (length (indices @ [i]) - 8) (outcomes p indices)"
      by (simp only: tl_drop drop_Suc [symmetric])
    with SubtitleCache_set_evicts [OF d ne full nh, of r] IH(1) out False len
    show ?thesis by simp
  qed
  with step ms IH(2) show ?case by simp
qed


lemma ninth_lookup_evicts_first:
  assumes "cache (subtitleCache p) = []" and "maxSize (subtitleCache p) = 8"
    and "distinct indices" and "length indices = 9"
    and "\<forall>i \<in> set indices. \<exists>r. computeSubtitleAtIndex p i = Inr r"
  shows "\<not> js_map_has (cache (subtitleCache (lookups p indices))) (hd indices)"
    and "fst (SubtitleCache_get (subtitleCache (lookups p indices)) (hd indices)) = Null"
    and "fst (getSubtitleAtIndex (lookups p indices) (hd indices))
           = fst (getSubtitleAtIndex p (hd indices))"
    and "length (cache (subtitleCache (lookups p indices))) = 8"
proof -
  let ?q = "lookups p indices"
  from assms(4) obtain i rest where ir: "indices = i # rest" by (cases indices) auto
  from lookups_from_empty [OF assms(1,2,3,5)] assms(4)
  have c: "cache (subtitleCache ?q) = drop 1 (outcomes p indices)"
    and ds: "displaySets ?q = displaySets p" by simp_all
  from c ir have c': "cache (subtitleCache ?q) = outcomes p rest" by (simp add: outcomes_def)
  have "i \<notin> set rest" using assms(3) ir by simp
  then show nh: "\<not> js_map_has (cache (subtitleCache ?q)) (hd indices)"
    using c' ir by (auto simp: js_map_has_def outcomes_def)
  then show "fst (SubtitleCache_get (subtitleCache ?q) (hd indices)) = Null"
    by (simp add: SubtitleCache_get_not_has)
  from assms(5) ir obtain r where r: "computeSubtitleAtIndex p (hd indices) = Inr r" by auto
  then have rq: "computeSubtitleAtIndex ?q (hd indices) = Inr r"
    using computeSubtitleAtIndex_cong [OF ds] by simp
  have "\<not> js_map_has (cache (subtitleCache p)) (hd indices)"
    using assms(1) by (simp add: js_map_has_def)
  from getSubtitleAtIndex_miss [OF this r] getSubtitleAtIndex_miss [OF nh rq]
  show "fst (getSubtitleAtIndex ?q (hd indices)) = fst (getSubtitleAtIndex p (hd indices))"
    by simp
  show "length (cache (subtitleCache ?q)) = 8"
    using c' ir assms(4) by (simp add: outcomes_def)
qed


section \<open>C4: a stored absent outcome\<close>

text \<open>
  Claim C4: a lookup that misses stores the outcome even when it is the absent marker, and
  a second lookup of the same index finds the stored entry and does not recompute. The
  code stores the entry but does not find it: \<open>SubtitleCache.get\<close> answers \<open>null\<close> for a
  stored \<open>undefined\<close>. On a \<open>Pgs\<close> with nothing loaded, the lookup of index 0 returns
  absent and leaves the entry \<open>(0, undefined)\<close> in the cache, and \<open>get\<close> on that cache
  answers \<open>null\<close> for index 0, so that the second lookup computes again.
\<close>

theorem absent_outcome_is_looked_up_as_miss:
  "fst (getSubtitleAtIndex new_Pgs 0) = Inr None \<and>
   cache (subtitleCache (snd (getSubtitleAtIndex new_Pgs 0))) = [(0, None)] \<and>
   fst (SubtitleCache_get (subtitleCache (snd (getSubtitleAtIndex new_Pgs 0))) 0) = Null"
  by (simp add: getSubtitleAtIndex_def new_Pgs_def new_SubtitleCache_def SubtitleCache_get_def
        SubtitleCache_set_def computeSubtitleAtIndex_def js_map_get_def js_map_has_def
        js_map_set_def)


section \<open>C5: the cache is a bounded least-recently-used map\<close>



section \<open>C6: a query at the timestamp of a display set\<close>

lemma getIndexFromTimestamps_between:
  assumes srt: "sorted ts" and small: "length ts < 2 ^ 31" and i: "i + 1 < length ts"
    and lo: "js_ge (pgsTime_of t) (ts ! i)" and hi: "js_lt (pgsTime_of t) (ts ! (i + 1))"
  shows "getIndexFromTimestamps t ts = Some (int i)"
proof -
  let ?p = "pgsTime_of t"
  have ne: "ts \<noteq> []" using i by auto
  have nan: "?p \<noteq> NaN" using lo by (rule js_ge_not_NaN)
  have next_no: "\<not> js_ge ?p (ts ! (i + 1))" using hi js_ge_not_lt by blast
  have "ts ! 0 \<le> ts ! i" using srt i by (simp add: sorted_nth_mono)
  with lo have "js_ge ?p (ts ! 0)" by (rule js_ge_mono)
  then have first: "\<not> js_lt ?p (ts ! 0)" by (rule js_ge_not_lt)
  have "ts ! (i + 1) \<le> ts ! (length ts - 1)" using srt i by (simp add: sorted_nth_mono)
  with next_no have last: "\<not> js_ge ?p (ts ! (length ts - 1))" using js_ge_mono by blast
  from getIndexFromTimestamps_inside [OF srt small nan] ne first last obtain k where
    k: "getIndexFromTimestamps t ts = Some (int k)" "k < length ts"
       "js_le (ts ! k) ?p"
       "\<forall>j < length ts. js_le (ts ! j) ?p \<longrightarrow> j \<le> k"
    by blast
  from k(4) i lo have "i \<le> k" by (simp add: js_le_ge)
  moreover have "\<not> i < k"
  proof
    assume "i < k"
    then have "i + 1 \<le> k" by simp
    with srt k(2) have "ts ! (i + 1) \<le> ts ! k" by (simp add: sorted_nth_mono)
    with k(3) have "js_ge ?p (ts ! (i + 1))" using js_ge_mono js_le_ge by blast
    with next_no show False by simp
  qed
  ultimately show ?thesis using k(1) by simp
qed

lemma ex_pgs2_compute:
  "computeSubtitleAtIndex ex_pgs2 1 = Inr (Some ex_subtitle)"
  "computeSubtitleAtIndex ex_pgs2 (- 1) = Inr None"
  "computeSubtitleAtIndex ex_pgs2 0 = Inr None"
  using ex_pixels
  by (simp_all add: ex_pgs2_def computeSubtitleAtIndex_def scan.simps accumulate_def unshift_def
        stops_scan_def empty_context_def ex_epoch_start_def ex_bare_def ex_composition_def
        ex_subtitle_def Let_def ex_ids)

lemma ex_pgs2_cache: "\<not> js_map_has (cache (subtitleCache ex_pgs2)) i"
  by (simp add: ex_pgs2_def new_SubtitleCache_def js_map_has_def)

lemma ex_pgs3_compute:
  "computeSubtitleAtIndex ex_pgs3 1 = Inr (Some ex_subtitle)"
  "computeSubtitleAtIndex ex_pgs3 (- 1) = Inr None"
  using ex_pixels
  by (simp_all add: ex_pgs3_def computeSubtitleAtIndex_def scan.simps accumulate_def unshift_def
        stops_scan_def empty_context_def ex_epoch_start_def ex_normal_def ex_bare_def
        ex_composition_def ex_subtitle_def Let_def ex_ids)

lemma ex_pgs3_cache: "\<not> js_map_has (cache (subtitleCache ex_pgs3)) i"
  by (simp add: ex_pgs3_def new_SubtitleCache_def js_map_has_def)

text \<open>The doubles \<open>180000 / 90000\<close> and \<open>270000 / 90000\<close> are 2 and 3, and their products
  with 90000 are 180000 and 270000 again.\<close>

lemma pgsTime_of_seconds_examples:
  "pgsTime_of (seconds_of_ticks 180000) = Finite 6184752906240000 (- 35)"
  "pgsTime_of (seconds_of_ticks 270000) = Finite 4638564679680000 (- 34)"
  by (simp_all add: number_eval)

text \<open>
  The double \<open>90008 / 90000\<close> is below the quotient, and its product with 90000 in doubles
  is \<open>90007.99999999999\<close>, below 90008: with the timestamps \<open>[90000, 90008, 180016]\<close> the
  query at \<open>90008 / 90000\<close> finds index 0, not index 1.
\<close>

lemma rounded_query_finds_previous_index:
  "seconds_of_ticks 90008 = Finite 4503999947337373 (- 52)"
  "pgsTime_of (seconds_of_ticks 90008) = Finite 6185302662053887 (- 36)"
  "js_lt (pgsTime_of (seconds_of_ticks 90008)) 90008"
  "getIndexFromTimestamps (seconds_of_ticks 90008) [90000, 90008, 180016] = Some 0"
proof -
  show s: "seconds_of_ticks 90008 = Finite 4503999947337373 (- 52)"
    by (simp add: number_eval)
  show p: "pgsTime_of (seconds_of_ticks 90008) = Finite 6185302662053887 (- 36)"
    unfolding s by (simp add: number_eval)
  show "js_lt (pgsTime_of (seconds_of_ticks 90008)) 90008"
    unfolding p by (simp add: dyadic_def)
  show "getIndexFromTimestamps (seconds_of_ticks 90008) [90000, 90008, 180016] = Some 0"
    by (simp add: getIndexFromTimestamps_def p search_loop.simps ushr1_def ts_le_def ts_at_def
          dyadic_def)
qed

text \<open>
  Claim C6, as amended. For every \<open>Pgs\<close> whose \<open>updateTimestamps\<close> are strictly increasing
  (and fewer than \<open>2^31\<close>) and every index \<open>i\<close> other than the last, with
  \<open>updateTimestamps[i]\<close> a 32-bit tick count, the query at \<open>t = updateTimestamps[i] / 90000\<close>
  does what \<open>getSubtitleAtIndex(i)\<close> does, the same result and the same cache afterwards,
  whenever the product \<open>t * 90000\<close> that the code computes in doubles is not below
  \<open>updateTimestamps[i]\<close>. At the last index, whenever that product is not below the last
  timestamp, the query is outside the range and does what \<open>getSubtitleAtIndex(-1)\<close> does.
  Nothing is said of a product that the doubles round below \<open>updateTimestamps[i]\<close>.
\<close>

theorem timestamp_lookup_matches_index:
  "(sorted_wrt (<) (updateTimestamps p) \<and> length (updateTimestamps p) < 2 ^ 31 \<and>
    i + 1 < length (updateTimestamps p) \<and> updateTimestamps p ! i < 2 ^ 32 \<and>
    js_ge (pgsTime_of (seconds_of_ticks (updateTimestamps p ! i))) (updateTimestamps p ! i)
      \<longrightarrow> getSubtitleAtTimestamp p (seconds_of_ticks (updateTimestamps p ! i))
            = Some (getSubtitleAtIndex p (int i))) \<and>
   (i + 1 = length (updateTimestamps p) \<and>
    js_ge (pgsTime_of (seconds_of_ticks (updateTimestamps p ! i))) (updateTimestamps p ! i)
      \<longrightarrow> getSubtitleAtTimestamp p (seconds_of_ticks (updateTimestamps p ! i))
            = Some (getSubtitleAtIndex p (- 1)))"
proof (intro conjI impI)
  let ?ts = "updateTimestamps p"
  let ?t = "seconds_of_ticks (?ts ! i)"
  assume a: "sorted_wrt (<) ?ts \<and> length ?ts < 2 ^ 31 \<and> i + 1 < length ?ts \<and>
    ?ts ! i < 2 ^ 32 \<and> js_ge (pgsTime_of ?t) (?ts ! i)"
  then have srt: "sorted ?ts" by (simp add: strict_sorted_imp_sorted)
  from a have "?ts ! i < ?ts ! (i + 1)" by (simp add: sorted_wrt_nth_less)
  then have "?ts ! i + 1 \<le> ?ts ! (i + 1)" by simp
  moreover from a have "js_lt (pgsTime_of ?t) (?ts ! i + 1)"
    by (intro product_below_next_tick) simp
  ultimately have "js_lt (pgsTime_of ?t) (?ts ! (i + 1))" by (rule js_lt_mono [rotated])
  with a srt have "getIndexFromTimestamps ?t ?ts = Some (int i)"
    by (intro getIndexFromTimestamps_between) simp_all
  then show "getSubtitleAtTimestamp p ?t = Some (getSubtitleAtIndex p (int i))"
    by (simp add: getSubtitleAtTimestamp_def)
next
  let ?t = "seconds_of_ticks (updateTimestamps p ! i)"
  assume a: "i + 1 = length (updateTimestamps p) \<and>
    js_ge (pgsTime_of ?t) (updateTimestamps p ! i)"
  then have "i + 1 = length (updateTimestamps p)" by blast
  then have "length (updateTimestamps p) - 1 = i" by arith
  with a have "getIndexFromTimestamps ?t (updateTimestamps p) = Some (- 1)"
    by (intro getIndexFromTimestamps_outside) simp
  then show "getSubtitleAtTimestamp p ?t = Some (getSubtitleAtIndex p (- 1))"
    by (simp add: getSubtitleAtTimestamp_def)
qed

theorem timestamp_lookup_matches_index_witness:
  "sorted_wrt (<) (updateTimestamps ex_pgs3) \<and> length (updateTimestamps ex_pgs3) < 2 ^ 31 \<and>
   1 + 1 < length (updateTimestamps ex_pgs3) \<and> updateTimestamps ex_pgs3 ! 1 < 2 ^ 32 \<and>
   js_ge (pgsTime_of (seconds_of_ticks (updateTimestamps ex_pgs3 ! 1)))
         (updateTimestamps ex_pgs3 ! 1) \<and>
   getSubtitleAtTimestamp ex_pgs3 (seconds_of_ticks (updateTimestamps ex_pgs3 ! 1))
     = Some (getSubtitleAtIndex ex_pgs3 1) \<and>
   fst (getSubtitleAtIndex ex_pgs3 1) = Inr (Some ex_subtitle) \<and>
   2 + 1 = length (updateTimestamps ex_pgs3) \<and>
   js_ge (pgsTime_of (seconds_of_ticks (updateTimestamps ex_pgs3 ! 2)))
         (updateTimestamps ex_pgs3 ! 2) \<and>
   getSubtitleAtTimestamp ex_pgs3 (seconds_of_ticks (updateTimestamps ex_pgs3 ! 2))
     = Some (getSubtitleAtIndex ex_pgs3 (- 1)) \<and>
   fst (getSubtitleAtIndex ex_pgs3 (- 1)) = Inr None"
proof -
  have ts: "updateTimestamps ex_pgs3 = [90000, 180000, 270000]"
    by (simp add: ex_pgs3_def)
  have h: "sorted_wrt (<) (updateTimestamps ex_pgs3) \<and>
   length (updateTimestamps ex_pgs3) < 2 ^ 31 \<and>
   1 + 1 < length (updateTimestamps ex_pgs3) \<and> updateTimestamps ex_pgs3 ! 1 < 2 ^ 32 \<and>
   js_ge (pgsTime_of (seconds_of_ticks (updateTimestamps ex_pgs3 ! 1)))
         (updateTimestamps ex_pgs3 ! 1) \<and>
   2 + 1 = length (updateTimestamps ex_pgs3) \<and>
   js_ge (pgsTime_of (seconds_of_ticks (updateTimestamps ex_pgs3 ! 2)))
         (updateTimestamps ex_pgs3 ! 2)"
    unfolding ts by (simp add: pgsTime_of_seconds_examples dyadic_def)
  have f: "fst (getSubtitleAtIndex ex_pgs3 1) = Inr (Some ex_subtitle)"
    "fst (getSubtitleAtIndex ex_pgs3 (- 1)) = Inr None"
    using getSubtitleAtIndex_miss [OF ex_pgs3_cache ex_pgs3_compute(1)]
      getSubtitleAtIndex_miss [OF ex_pgs3_cache ex_pgs3_compute(2)] by simp_all
  from timestamp_lookup_matches_index [of ex_pgs3 1] timestamp_lookup_matches_index [of ex_pgs3 2]
    h f
  show ?thesis by simp
qed

text \<open>
  The claim as stated fails at the last index: in the stream of two display sets the
  query at \<open>t = 180000 / 90000\<close> returns absent, and \<open>getSubtitleAtIndex(1)\<close> returns the
  subtitle.
\<close>

theorem timestamp_lookup_counterexample:
  "(1 :: nat) < length (updateTimestamps ex_pgs2) \<and>
   getSubtitleAtTimestamp ex_pgs2 (seconds_of_ticks (updateTimestamps ex_pgs2 ! 1))
     = Some (getSubtitleAtIndex ex_pgs2 (- 1)) \<and>
   fst (getSubtitleAtIndex ex_pgs2 (- 1)) = Inr None \<and>
   fst (getSubtitleAtIndex ex_pgs2 1) = Inr (Some ex_subtitle)"
proof -
  have ts: "updateTimestamps ex_pgs2 = [90000, 180000]"
    by (simp add: ex_pgs2_def)
  have "getIndexFromTimestamps (seconds_of_ticks (updateTimestamps ex_pgs2 ! 1))
          (updateTimestamps ex_pgs2) = Some (- 1)"
    unfolding ts
    by (simp add: getIndexFromTimestamps_def pgsTime_of_seconds_examples dyadic_def)
  then have "getSubtitleAtTimestamp ex_pgs2 (seconds_of_ticks (updateTimestamps ex_pgs2 ! 1))
      = Some (getSubtitleAtIndex ex_pgs2 (- 1))"
    by (simp add: getSubtitleAtTimestamp_def)
  moreover have "(1 :: nat) < length (updateTimestamps ex_pgs2)"
    by (simp add: ex_pgs2_def)
  ultimately show ?thesis
    using getSubtitleAtIndex_miss [OF ex_pgs2_cache ex_pgs2_compute(1)]
      getSubtitleAtIndex_miss [OF ex_pgs2_cache ex_pgs2_compute(2)]
    by simp
qed


section \<open>Properties of the loading loop\<close>

lemma load_loop_result:
  assumes "load_loop eof read reader p = Some y"
  shows "subtitleCache (snd y) = subtitleCache p \<and>
         (updateTimestamps p = map presentationTimestamp (displaySets p) \<longrightarrow>
          updateTimestamps (snd y) = map presentationTimestamp (displaySets (snd y)))"
proof (rule load_loop.raw_induct
    [where P = "\<lambda>eof read reader p y. subtitleCache (snd y) = subtitleCache p \<and>
         (updateTimestamps p = map presentationTimestamp (displaySets p) \<longrightarrow>
          updateTimestamps (snd y) = map presentationTimestamp (displaySets (snd y)))",
     OF _ assms])
  fix f :: "('a \<Rightarrow> bool) \<Rightarrow> ('a \<Rightarrow> error + display_set \<times> 'a) \<Rightarrow> 'a \<Rightarrow> pgs
              \<Rightarrow> (error option \<times> pgs) option"
    and eof read reader p y
  assume IH: "\<And>eof read reader p y. f eof read reader p = Some y \<Longrightarrow>
      subtitleCache (snd y) = subtitleCache p \<and>
      (updateTimestamps p = map presentationTimestamp (displaySets p) \<longrightarrow>
       updateTimestamps (snd y) = map presentationTimestamp (displaySets (snd y)))"
    and step: "(if \<not> eof reader
      then (case read reader of
              Inl e \<Rightarrow> Some (Some e, p)
            | Inr (displaySet, reader') \<Rightarrow>
                f eof read reader'
                  (p\<lparr>displaySets := displaySets p @ [displaySet],
                     updateTimestamps := updateTimestamps p @ [presentationTimestamp displaySet]\<rparr>))
      else Some (None, p)) = Some y"
  show "subtitleCache (snd y) = subtitleCache p \<and>
      (updateTimestamps p = map presentationTimestamp (displaySets p) \<longrightarrow>
       updateTimestamps (snd y) = map presentationTimestamp (displaySets (snd y)))"
  proof (cases "eof reader")
    case True
    with step show ?thesis by auto
  next
    case False
    show ?thesis
    proof (cases "read reader")
      case (Inl e)
      with False step show ?thesis by auto
    next
      case (Inr dr)
      obtain ds reader' where dr: "dr = (ds, reader')" by (cases dr) auto
      let ?p' = "p\<lparr>displaySets := displaySets p @ [ds],
                    updateTimestamps := updateTimestamps p @ [presentationTimestamp ds]\<rparr>"
      from False Inr dr step have "f eof read reader' ?p' = Some y" by simp
      from IH [OF this] show ?thesis by simp
    qed
  qed
qed

lemma load_loop_first_read_fails:
  "\<not> eof reader \<Longrightarrow> read reader = Inl e \<Longrightarrow> load_loop eof read reader p = Some (Some e, p)"
  by (subst load_loop.simps) simp

lemma load_loop_parsed:
  "load_loop parsed_eof parsed_read dss p =
     Some (None, p\<lparr>displaySets := displaySets p @ dss,
                    updateTimestamps := updateTimestamps p @ map presentationTimestamp dss\<rparr>)"
proof (induction dss arbitrary: p)
  case Nil
  show ?case by (subst load_loop.simps) (simp add: parsed_eof_def)
next
  case (Cons ds dss)
  show ?case
    by (subst load_loop.simps) (simp add: parsed_eof_def parsed_read_def Cons.IH)
qed

lemma ex_timestamps:
  "presentationTimestamp (ex_bare ts) = ts" "presentationTimestamp (ex_epoch_start ts) = ts"
  by (simp_all add: ex_bare_def ex_epoch_start_def)

lemma nth_map_timestamps:
  "updateTimestamps q = map presentationTimestamp (displaySets q) \<Longrightarrow>
   length (updateTimestamps q) = length (displaySets q) \<and>
   (\<forall>i < length (displaySets q). updateTimestamps q ! i = presentationTimestamp (displaySets q ! i))"
  by simp

section \<open>C8: the timestamps after a load\<close>

text \<open>
  Claim C8. After \<open>loadFromReader\<close> has completed (also when it has ended with an
  error), \<open>updateTimestamps\<close> has the length of
  \<open>displaySets\<close>, \<open>updateTimestamps[i]\<close> is \<open>displaySets[i].presentationTimestamp\<close> for every
  \<open>i\<close>, and when the display sets carry strictly increasing timestamps, \<open>updateTimestamps\<close>
  is strictly increasing. On a stream that parses into the display sets \<open>dss\<close> the load
  does complete, with \<open>displaySets = dss\<close>.
\<close>

theorem load_records_timestamps:
  "(loadFromReader eof read reader p = Some (outcome, p') \<longrightarrow>
      length (updateTimestamps p') = length (displaySets p') \<and>
      (\<forall>i < length (displaySets p').
          updateTimestamps p' ! i = presentationTimestamp (displaySets p' ! i)) \<and>
      (sorted_wrt (<) (map presentationTimestamp (displaySets p'))
         \<longrightarrow> sorted_wrt (<) (updateTimestamps p'))) \<and>
   (\<exists>q. loadFromReader parsed_eof parsed_read dss p = Some (None, q) \<and> displaySets q = dss \<and>
        updateTimestamps q = map presentationTimestamp dss)"
proof (intro conjI impI)
  assume a: "loadFromReader eof read reader p = Some (outcome, p')"
  let ?p0 = "p\<lparr>displaySets := [], updateTimestamps := [],
          subtitleCache := SubtitleCache_clear (subtitleCache p)\<rparr>"
  from a have "load_loop eof read reader ?p0 = Some (outcome, p')"
    by (simp add: loadFromReader_def)
  from load_loop_result [OF this]
  have eq: "updateTimestamps p' = map presentationTimestamp (displaySets p')" by simp
  from nth_map_timestamps [OF eq]
  show "length (updateTimestamps p') = length (displaySets p')"
    and "\<forall>i < length (displaySets p').
          updateTimestamps p' ! i = presentationTimestamp (displaySets p' ! i)"
    by blast+
  assume "sorted_wrt (<) (map presentationTimestamp (displaySets p'))"
  with eq show "sorted_wrt (<) (updateTimestamps p')" by simp
next
  show "\<exists>q. loadFromReader parsed_eof parsed_read dss p = Some (None, q) \<and> displaySets q = dss \<and>
        updateTimestamps q = map presentationTimestamp dss"
    by (simp add: loadFromReader_def load_loop_parsed)
qed

theorem load_records_timestamps_witness:
  "loadFromReader parsed_eof parsed_read [ex_bare 90000, ex_epoch_start 180000] ex_pgs
     = Some (None, ex_pgs2) \<and>
   sorted_wrt (<) (map presentationTimestamp (displaySets ex_pgs2)) \<and>
   length (updateTimestamps ex_pgs2) = length (displaySets ex_pgs2) \<and>
   updateTimestamps ex_pgs2 ! 1 = presentationTimestamp (displaySets ex_pgs2 ! 1) \<and>
   sorted_wrt (<) (updateTimestamps ex_pgs2)"
proof -
  have l: "loadFromReader parsed_eof parsed_read [ex_bare 90000, ex_epoch_start 180000] ex_pgs
     = Some (None, ex_pgs2)"
    by (simp add: loadFromReader_def load_loop_parsed ex_pgs_def ex_pgs2_def
          SubtitleCache_clear_def new_SubtitleCache_def ex_timestamps)
  have s: "sorted_wrt (<) (map presentationTimestamp (displaySets ex_pgs2))"
    by (simp add: ex_pgs2_def ex_timestamps)
  have n: "1 < length (displaySets ex_pgs2)" by (simp add: ex_pgs2_def)
  from load_records_timestamps [of parsed_eof parsed_read
      "[ex_bare 90000, ex_epoch_start 180000]" ex_pgs None ex_pgs2 "[]"] l s n
  show ?thesis by blast
qed

section \<open>C9: what a failed load leaves behind\<close>

text \<open>
  Claim C9, as amended. A load that fails before \<open>loadFromReader\<close> is entered (the fetch is
  rejected, the response is not \<open>ok\<close>, or the body cannot be read) leaves the display
  sets, the timestamps and the cache as they were and surfaces the failure. A load that
  fails inside \<open>loadFromReader\<close> before the parser has produced a display set surfaces the
  failure and leaves the empty state: \<open>loadFromReader\<close> clears the display sets, the
  timestamps and the cache when it is entered.
\<close>

theorem failed_load_state:
  "(fetched = Inl e \<longrightarrow> loadFromUrl eof read fetched p = Some (Some e, p)) \<and>
   (fetched = Inr response \<and> \<not> ok response
      \<longrightarrow> loadFromUrl eof read fetched p = Some (Some (HttpError (status response)), p)) \<and>
   (fetched = Inr response \<and> ok response \<and> body response = Inl e
      \<longrightarrow> loadFromUrl eof read fetched p = Some (Some e, p)) \<and>
   (\<not> eof reader \<and> read reader = Inl e
      \<longrightarrow> loadFromReader eof read reader p
            = Some (Some e, p\<lparr>displaySets := [], updateTimestamps := [],
                               subtitleCache := SubtitleCache_clear (subtitleCache p)\<rparr>)) \<and>
   (fetched = Inr response \<and> ok response \<and> body response = Inr reader \<and>
    \<not> eof reader \<and> read reader = Inl e
      \<longrightarrow> loadFromUrl eof read fetched p
            = Some (Some e, p\<lparr>displaySets := [], updateTimestamps := [],
                               subtitleCache := SubtitleCache_clear (subtitleCache p)\<rparr>))"
  by (auto simp: loadFromUrl_def loadFromReader_def load_loop_first_read_fails)

theorem failed_load_state_witness:
  "loadFromUrl broken_eof broken_read (Inl FetchRejected) ex_pgs2 = Some (Some FetchRejected, ex_pgs2) \<and>
   loadFromUrl broken_eof broken_read (Inr \<lparr>ok = False, status = 404, body = Inr ()\<rparr>) ex_pgs2
     = Some (Some (HttpError 404), ex_pgs2) \<and>
   loadFromUrl broken_eof broken_read (Inr \<lparr>ok = True, status = 200, body = Inl TransportFailure\<rparr>)
       ex_pgs2
     = Some (Some TransportFailure, ex_pgs2) \<and>
   \<not> broken_eof () \<and> broken_read () = Inl TransportFailure \<and>
   loadFromReader broken_eof broken_read () ex_pgs2 = Some (Some TransportFailure, new_Pgs) \<and>
   loadFromUrl broken_eof broken_read (Inr \<lparr>ok = True, status = 200, body = Inr ()\<rparr>) ex_pgs2
     = Some (Some TransportFailure, new_Pgs)"
proof -
  have h: "\<not> broken_eof () \<and> broken_read () = Inl TransportFailure"
    by (simp add: broken_eof_def broken_read_def)
  have c: "ex_pgs2\<lparr>displaySets := [], updateTimestamps := [],
                 subtitleCache := SubtitleCache_clear (subtitleCache ex_pgs2)\<rparr> = new_Pgs"
    by (simp add: ex_pgs2_def new_Pgs_def SubtitleCache_clear_def new_SubtitleCache_def)
  from failed_load_state [of "Inl FetchRejected" FetchRejected broken_eof broken_read ex_pgs2]
    failed_load_state [of "Inr \<lparr>ok = False, status = 404, body = Inr ()\<rparr>" _ broken_eof
      broken_read ex_pgs2 "\<lparr>ok = False, status = 404, body = Inr ()\<rparr>"]
    failed_load_state [of "Inr \<lparr>ok = True, status = 200, body = Inl TransportFailure\<rparr>"
      TransportFailure broken_eof broken_read ex_pgs2
      "\<lparr>ok = True, status = 200, body = Inl TransportFailure\<rparr>"]
    failed_load_state [of "Inr \<lparr>ok = True, status = 200, body = Inr ()\<rparr>"
      TransportFailure broken_eof broken_read ex_pgs2
      "\<lparr>ok = True, status = 200, body = Inr ()\<rparr>" "()"]
    h c
  show ?thesis by simp
qed

text \<open>
  The claim as stated fails when the transport fails at the first read: the stream of two
  display sets loaded before is gone.
\<close>

theorem failed_load_counterexample:
  "\<not> broken_eof () \<and> broken_read () = Inl TransportFailure \<and>
   loadFromReader broken_eof broken_read () ex_pgs2 = Some (Some TransportFailure, new_Pgs) \<and>
   displaySets new_Pgs \<noteq> displaySets ex_pgs2 \<and>
   updateTimestamps new_Pgs \<noteq> updateTimestamps ex_pgs2"
proof -
  have "load_loop broken_eof broken_read () new_Pgs = Some (Some TransportFailure, new_Pgs)"
    by (rule load_loop_first_read_fails) (simp_all add: broken_eof_def broken_read_def)
  then show ?thesis
    by (simp add: loadFromReader_def ex_pgs2_def new_Pgs_def SubtitleCache_clear_def
          new_SubtitleCache_def broken_eof_def broken_read_def)
qed

end
